theory Spec2Isabelle
  imports Complex_Main "HOL-Library.Word" "HOL-Library.Sublist" "HOL-Library.FSet"
begin

section \<open>JavaScript strings\<close>

text \<open>
  A JavaScript string is a sequence of UTF-16 code units; \<open>length\<close>, \<open>substring\<close>,
  \<open>split\<close>, \<open>includes\<close> and the regular expressions of \<^verbatim>\<open>page.tsx\<close> (none has the
  \<open>u\<close> flag) all count code units. ASCII literals are embedded with \<open>lit\<close>; the few
  non-ASCII characters of the source's templates are written by their code unit.
\<close>

type_synonym jschar = "16 word"

type_synonym jsstring = "jschar list"

definition lit :: "string \<Rightarrow> jsstring" where
  "lit s = map (\<lambda>c. of_nat (of_char c)) s"

definition substring0 :: "jsstring \<Rightarrow> nat \<Rightarrow> jsstring" where
  \<comment> \<open>\<^verbatim>\<open>s.substring(0, n)\<close>\<close>
  "substring0 s n = take n s"

fun join_js :: "jsstring list \<Rightarrow> jsstring \<Rightarrow> jsstring" where
  \<comment> \<open>\<^verbatim>\<open>xs.join(sep)\<close>\<close>
  "join_js [] sep = []"
| "join_js [x] sep = x"
| "join_js (x # y # ys) sep = x @ sep @ join_js (y # ys) sep"

fun split_js :: "jsstring \<Rightarrow> jschar \<Rightarrow> jsstring list" where
  \<comment> \<open>\<^verbatim>\<open>s.split(sep)\<close> for a one-character separator: never the empty array\<close>
  "split_js [] sep = [[]]"
| "split_js (c # cs) sep =
     (if c = sep then [] # split_js cs sep
      else (case split_js cs sep of
              [] \<Rightarrow> [[c]]
            | piece # pieces \<Rightarrow> (c # piece) # pieces))"

fun includes_js :: "jsstring \<Rightarrow> jsstring \<Rightarrow> bool" where
  \<comment> \<open>\<^verbatim>\<open>s.includes(pat)\<close>\<close>
  "includes_js [] pat = (pat = [])"
| "includes_js (c # cs) pat = (take (length pat) (c # cs) = pat \<or> includes_js cs pat)"

fun show_nat :: "nat \<Rightarrow> jsstring" where
  \<comment> \<open>a non-negative integer inside a template literal: its decimal digits\<close>
  "show_nat n =
     (if n < 10 then [of_nat (48 + n)]
      else show_nat (n div 10) @ [of_nat (48 + n mod 10)])"

declare show_nat.simps [simp del]

definition is_js_whitespace :: "jschar \<Rightarrow> bool" where
  \<comment> \<open>WhiteSpace and LineTerminator of ECMAScript, the characters \<^verbatim>\<open>trim\<close> strips\<close>
  "is_js_whitespace c =
     (c \<in> {0x09, 0x0A, 0x0B, 0x0C, 0x0D, 0x20, 0xA0, 0x1680, 0x2028, 0x2029, 0x202F, 0x205F,
            0x3000, 0xFEFF} \<or> (0x2000 \<le> c \<and> c \<le> 0x200A))"

definition trim_js :: "jsstring \<Rightarrow> jsstring" where
  \<comment> \<open>\<^verbatim>\<open>s.trim()\<close>\<close>
  "trim_js s = rev (dropWhile is_js_whitespace (rev (dropWhile is_js_whitespace s)))"

subsection \<open>The global, case-insensitive alternation of \<^verbatim>\<open>computeConfidence\<close>\<close>

text \<open>
  \<^verbatim>\<open>answer.match(/p1|p2|.../gi)\<close> scans from index 0: at each index the alternatives are
  tried in order; a match is recorded and the scan resumes after it (one unit further
  when the match is empty), otherwise the scan moves one unit on. Without the \<open>u\<close> flag
  two code units match when their canonical forms (simple upper-casing) agree, and a
  non-ASCII unit is never canonicalised to an ASCII one; since every pattern here is ASCII,
  upper-casing the ASCII letters and leaving every other unit alone decides the same
  matches.
\<close>

definition canonicalize :: "jschar \<Rightarrow> jschar" where
  "canonicalize c = (if 97 \<le> c \<and> c \<le> 122 then c - 32 else c)"

definition matches_at :: "jsstring \<Rightarrow> jsstring \<Rightarrow> bool" where
  "matches_at p s =
     (length p \<le> length s \<and> map canonicalize (take (length p) s) = map canonicalize p)"

definition first_alternative :: "jsstring list \<Rightarrow> jsstring \<Rightarrow> jsstring option" where
  "first_alternative alts s = find (\<lambda>p. matches_at p s) alts"

function match_global :: "jsstring list \<Rightarrow> jsstring \<Rightarrow> jsstring list" where
  "match_global alts s =
     (case first_alternative alts s of
        Some p \<Rightarrow> take (length p) s #
                   (if s = [] then [] else match_global alts (drop (max 1 (length p)) s))
      | None \<Rightarrow> (if s = [] then [] else match_global alts (tl s)))"
  by pat_completeness auto

termination
  by (relation "measure (\<lambda>(alts, s). length s)") auto

declare match_global.simps [simp del]

section \<open>The confidence scorer\<close>

definition EVIDENCE_PHRASES :: "jsstring list" where
  \<comment> \<open>the alternatives of \<^verbatim>\<open>/according to|research shows|evidence suggests|data shows/gi\<close>\<close>
  "EVIDENCE_PHRASES =
     [lit ''according to'', lit ''research shows'', lit ''evidence suggests'', lit ''data shows'']"

definition Math_round :: "rat \<Rightarrow> int" where
  \<comment> \<open>\<^verbatim>\<open>Math.round\<close>: the nearest integer, a tie going up\<close>
  "Math_round x = \<lfloor>x + 1 / 2\<rfloor>"

text \<open>
  \<^verbatim>\<open>computeConfidence(answer, numPasses, docChunks, hasMem)\<close>. Its only call passes an
  array length and the literal 0, so the two numbers are counts. The source adds up in
  binary64; the model adds up exactly. Every summand but the word term is a multiple of
  1/2, and the word term is a multiple of 1/120, so the exact sum is either an exactly
  representable multiple of 1/2 or at least 1/120 away from every rounding boundary of
  \<^verbatim>\<open>Math.round\<close>: the binary64 sum rounds to the same integer.
\<close>

definition computeConfidence :: "jsstring \<Rightarrow> nat \<Rightarrow> nat \<Rightarrow> bool \<Rightarrow> int" where
  "computeConfidence answer numPasses docChunks hasMem =
     (let s0 = (45 :: rat);
          s1 = s0 + min 15 (of_nat (length (split_js answer 0x20)) / 120);
          s2 = s1 + min 18 (of_nat numPasses * (7 / 2));
          s3 = s2 + min 12 (of_nat docChunks * 2);
          s4 = (if hasMem then s3 + 5 else s3);
          ev = length (match_global EVIDENCE_PHRASES answer);
          s5 = s4 + min 10 (of_nat ev * (3 / 2));
          s6 = (if includes_js answer (lit ''##'') \<or> includes_js answer (lit ''|'')
                then s5 + 4 else s5)
      in min 97 (max 22 (Math_round s6)))"

section \<open>Data model\<close>

record ResearchResult =
  rr_id :: jsstring
  rr_query :: jsstring
  rr_answer :: jsstring
  rr_confidence :: int
  rr_provider :: jsstring
  rr_model :: jsstring
  rr_depth :: jsstring
  rr_timestamp :: nat

record MemoryContext =
  mc_id :: jsstring
  mc_query :: jsstring
  mc_answer :: jsstring
  mc_provider :: jsstring
  mc_model :: jsstring
  mc_created_at :: "jsstring option"
  mc_timestamp :: "nat option"

subsection \<open>Property lookup on object literals\<close>

text \<open>
  \<^verbatim>\<open>obj[key]\<close> on an object literal finds the literal's own properties first and then
  those inherited from \<^verbatim>\<open>Object.prototype\<close>, whose members are functions (and, under
  \<^verbatim>\<open>__proto__\<close>, the prototype object itself): truthy values that are not numbers.
\<close>

datatype 'a jsvalue = Undefined | Own 'a | Inherited

definition Object_prototype_keys :: "jsstring list" where
  "Object_prototype_keys =
     [lit ''constructor'', lit ''__defineGetter__'', lit ''__defineSetter__'',
      lit ''hasOwnProperty'', lit ''__lookupGetter__'', lit ''__lookupSetter__'',
      lit ''isPrototypeOf'', lit ''propertyIsEnumerable'', lit ''toString'', lit ''valueOf'',
      lit ''__proto__'', lit ''toLocaleString'']"

definition get_property :: "(jsstring \<times> 'a) list \<Rightarrow> jsstring \<Rightarrow> 'a jsvalue" where
  "get_property obj key =
     (case map_of obj key of
        Some v \<Rightarrow> Own v
      | None \<Rightarrow> if key \<in> set Object_prototype_keys then Inherited else Undefined)"

subsection \<open>Constants of the page\<close>

definition PROVIDERS :: "(jsstring \<times> jsstring) list" where
  \<comment> \<open>each provider with its \<^verbatim>\<open>name\<close>, the only field \<^verbatim>\<open>startResearch\<close> reads\<close>
  "PROVIDERS =
     [(lit ''anthropic'', lit ''Anthropic''), (lit ''openai'', lit ''OpenAI''),
      (lit ''gemini'', lit ''Google Gemini''), (lit ''nvidia'', lit ''NVIDIA NIM'')]"

definition PASS_LABELS :: "jsstring list" where
  "PASS_LABELS =
     [lit ''INITIAL ANALYSIS'', lit ''DEEP INVESTIGATION'', lit ''CRITICAL EVALUATION'',
      lit ''CROSS-VALIDATION'', lit ''EXPERT SYNTHESIS'', lit ''ADVERSARIAL REVIEW'',
      lit ''DOMAIN EXPANSION'', lit ''FINAL REFINEMENT'']"

definition DEPTH_PASSES :: "(jsstring \<times> nat) list" where
  "DEPTH_PASSES =
     [(lit ''quick'', 1), (lit ''standard'', 3), (lit ''deep'', 5), (lit ''exhaustive'', 8)]"

definition truthy :: "nat jsvalue \<Rightarrow> bool" where
  "truthy v = (case v of Undefined \<Rightarrow> False | Own n \<Rightarrow> n \<noteq> 0 | Inherited \<Rightarrow> True)"

definition resolve_numPasses :: "jsstring \<Rightarrow> nat jsvalue" where
  \<comment> \<open>\<^verbatim>\<open>{ quick: 1, standard: 3, deep: 5, exhaustive: 8 }[depth] || 3\<close>\<close>
  "resolve_numPasses depth =
     (let v = get_property DEPTH_PASSES depth in if truthy v then v else Own 3)"

definition exceeds_one :: "nat jsvalue \<Rightarrow> bool" where
  \<comment> \<open>\<^verbatim>\<open>numPasses > 1\<close>: a value that is not a number converts to NaN and compares false\<close>
  "exceeds_one v = (case v of Own n \<Rightarrow> 1 < n | _ \<Rightarrow> False)"

definition nl :: jsstring where
  "nl = [0x0A]"

definition bars :: "nat \<Rightarrow> jsstring" where
  \<comment> \<open>a run of U+2501, the heavy horizontal bar of the banners\<close>
  "bars n = replicate n 0x2501"

section \<open>The memory block\<close>

definition memory_entry :: "MemoryContext \<Rightarrow> nat \<Rightarrow> jsstring" where
  "memory_entry c i =
     lit ''[Context '' @ show_nat (i + 1) @ lit '']'' @ nl @
     lit ''Previous Query: '' @ mc_query c @ nl @
     lit ''Previous Answer: '' @ substring0 (mc_answer c) 600 @ lit ''...''"

definition map_indexed :: "('a \<Rightarrow> nat \<Rightarrow> 'b) \<Rightarrow> 'a list \<Rightarrow> 'b list" where
  \<comment> \<open>\<^verbatim>\<open>xs.map((x, i) => f(x, i))\<close>\<close>
  "map_indexed f xs = map (\<lambda>(i, x). f x i) (enumerate 0 xs)"

definition buildMemorySection :: "jsstring fset \<Rightarrow> MemoryContext list \<Rightarrow> jsstring" where
  "buildMemorySection activeContextIds memoryContexts =
     (if fcard activeContextIds = 0 then []
      else
        let sel = filter (\<lambda>c. mc_id c |\<in>| activeContextIds) memoryContexts
        in if length sel = 0 then []
           else nl @ nl @ bars 3 @ lit '' PRIOR RESEARCH CONTEXTS '' @ bars 3 @ nl @
                join_js (map_indexed memory_entry sel) (nl @ nl) @
                nl @ bars 3 @ lit '' END CONTEXTS '' @ bars 3 @ nl @ nl @
                lit ''Use the above prior research to inform your current analysis.'')"

section \<open>Prompts\<close>

definition pass_entry :: "jsstring \<Rightarrow> nat \<Rightarrow> jsstring" where
  "pass_entry r j = lit ''[Pass '' @ show_nat (j + 1) @ lit '']: '' @ substring0 r 500 @ lit ''...''"

definition previous_context :: "jsstring list \<Rightarrow> jsstring" where
  "previous_context passResults =
     (if length passResults \<noteq> 0
      then nl @ nl @ lit ''PREVIOUS PASSES:'' @ nl @
           join_js (map_indexed pass_entry passResults) (nl @ nl)
      else [])"

definition pass_system_prompt :: "nat \<Rightarrow> nat \<Rightarrow> jsstring \<Rightarrow> jsstring" where
  "pass_system_prompt i numPasses passLabel =
     lit ''You are NEXUS, a world-class deep research AI. Pass '' @ show_nat (i + 1) @
     lit ''/'' @ show_nat numPasses @ lit '' '' @ [0x2014] @ lit '' '' @ passLabel @
     lit ''. Produce rigorous, structured analysis using markdown. Use headers, tables, and code blocks where appropriate.''"

definition pass_user_prompt :: "jsstring \<Rightarrow> jsstring \<Rightarrow> jsstring list \<Rightarrow> jsstring \<Rightarrow> jsstring" where
  "pass_user_prompt q memSection passResults passLabel =
     lit ''RESEARCH QUERY: '' @ q @ memSection @ previous_context passResults @
     nl @ nl @ lit ''Execute '' @ passLabel @ lit ''. Be thorough and precise.''"

definition synthesis_entry :: "jsstring \<Rightarrow> nat \<Rightarrow> jsstring" where
  "synthesis_entry r i = bars 2 @ lit '' PASS '' @ show_nat (i + 1) @ lit '' '' @ bars 2 @ nl @ r"

definition synthesis_system_prompt :: "nat \<Rightarrow> jsstring" where
  "synthesis_system_prompt n =
     lit ''You are NEXUS SYNTHESIS ENGINE. Produce a definitive research report from '' @
     show_nat n @ lit '' analysis passes. Structure: Executive Summary '' @ [0x2192] @
     lit '' Detailed Analysis '' @ [0x2192] @ lit '' Key Findings '' @ [0x2192] @
     lit '' Limitations '' @ [0x2192] @ lit '' Conclusions. Use rich markdown.''"

definition synthesis_user_prompt :: "jsstring \<Rightarrow> jsstring \<Rightarrow> jsstring list \<Rightarrow> jsstring" where
  "synthesis_user_prompt q memSection passResults =
     lit ''QUERY: '' @ q @ memSection @ nl @ nl @
     join_js (map_indexed synthesis_entry passResults) (nl @ nl) @
     nl @ nl @ lit ''Synthesize into the definitive final answer.''"

section \<open>The page state\<close>

text \<open>
  A progress event of \<^verbatim>\<open>addThought\<close> has a type label and a detail text. The detail is
  kept as the values its template is filled with (the text of an error message as it
  is); the elapsed-time stamp of an event and the locale formatting of a word count are
  left out.
\<close>

datatype detail =
    InitDetail jsstring jsstring "nat jsvalue"
  | InjectingDetail nat
  | ExecutingDetail nat nat
  | WordsDetail nat
  | SynthesizingDetail nat
  | DoneDetail int
  | MessageDetail jsstring

record thought =
  th_type :: jsstring
  th_detail :: detail

text \<open>
  The state of the \<^verbatim>\<open>Home\<close> component that \<^verbatim>\<open>startResearch\<close> and \<^verbatim>\<open>stopResearch\<close>
  read or write. \<open>abortRef\<close> is \<^verbatim>\<open>abortRef.current\<close>: \<open>None\<close> for \<^verbatim>\<open>null\<close>, otherwise
  the \<^verbatim>\<open>aborted\<close> flag of the controller's signal.
\<close>

record session =
  query :: jsstring
  provider :: jsstring
  model :: jsstring
  depth :: jsstring
  maxTokens :: nat
  temperature :: rat
  isResearching :: bool
  currentPhase :: jsstring
  progress :: rat
  results :: "ResearchResult list"
  history :: "ResearchResult list"
  memoryContexts :: "MemoryContext list"
  memoryEnabled :: bool
  activeContextIds :: "jsstring fset"
  thoughts :: "thought list"
  activeResultTab :: "jsstring \<rightharpoonup> jsstring"
  abortRef :: "bool option"

definition addThought :: "jsstring \<Rightarrow> detail \<Rightarrow> session \<Rightarrow> session" where
  "addThought ty d s = s\<lparr>thoughts := thoughts s @ [\<lparr>th_type = ty, th_detail = d\<rparr>]\<rparr>"

definition stopResearch :: "session \<Rightarrow> session" where
  "stopResearch s =
     s\<lparr>abortRef := map_option (\<lambda>_. True) (abortRef s),
       isResearching := False, currentPhase := [], progress := 0\<rparr>"

definition signal_aborted :: "session \<Rightarrow> bool" where
  \<comment> \<open>\<^verbatim>\<open>abortRef.current.signal.aborted\<close>; inside a run the controller is never null\<close>
  "signal_aborted s = (abortRef s = Some True)"

section \<open>The generation call and its environment\<close>

datatype js_error = JsError (err_name: jsstring) (err_message: jsstring)

datatype call_result = Returned jsstring | Threw js_error

text \<open>
  What the awaited \<^verbatim>\<open>callResearchAPI\<close> does is not decided by the page: the call
  returns a text or throws, and while it is pending the user may press Stop
  (\<^verbatim>\<open>stopResearch\<close> runs before the run resumes). A response that is not ok throws
  \<^verbatim>\<open>Error\<close> with the server's message, a rejected fetch throws the fetch's error. Every
  call is taken to settle.
\<close>

record gen_response =
  gr_result :: call_result
  gr_stopped :: bool

text \<open>
  \<^verbatim>\<open>callResearchAPI\<close> hands the run's abort signal to \<^verbatim>\<open>fetch\<close> (line 41), and both of its
  awaits, for the response and for its body, are aborted by that signal. So a call that
  is pending when Stop is pressed does not return and does not fail with the server's
  error: it throws the error named \<^verbatim>\<open>AbortError\<close>. What is proved of cancellation
  assumes this of the responses; every other property holds of any response.
\<close>

definition honours_signal :: "gen_response \<Rightarrow> bool" where
  "honours_signal r \<longleftrightarrow>
     (gr_stopped r \<longrightarrow>
        (case gr_result r of
           Threw err \<Rightarrow> err_name err = lit ''AbortError''
         | Returned response \<Rightarrow> False))"

text \<open>
  The rest of the environment of a run: the two readings of \<^verbatim>\<open>Date.now()\<close> for the
  result, what \<^verbatim>\<open>apiLoadMemory\<close> and \<^verbatim>\<open>apiLoadHistory\<close> deliver (the empty list when they
  fail), and whether Stop is pressed while the result is being persisted. The
  persistence calls take no abort signal, and nothing after them reads the signal.
\<close>

record environment =
  gen :: "nat \<Rightarrow> gen_response"
  now_id :: nat
  now_timestamp :: nat
  loaded_memory :: "MemoryContext list"
  loaded_history :: "ResearchResult list"
  stopped_while_persisting :: bool

text \<open>
  Every \<^verbatim>\<open>callResearchAPI\<close> invocation of a run is recorded with its arguments. The
  purpose is a label of the model, not an argument: it says which statement of
  \<^verbatim>\<open>startResearch\<close> made the call.
\<close>

datatype purpose = PassCall nat | SynthesisCall

record gen_call =
  gc_provider :: jsstring
  gc_model :: jsstring
  gc_system :: jsstring
  gc_user :: jsstring
  gc_maxTokens :: nat
  gc_temperature :: rat
  gc_purpose :: purpose

record run_state =
  ui :: session
  passResults :: "jsstring list"
  finalAnswer :: jsstring
  issued :: "gen_call list"

definition await_call :: "environment \<Rightarrow> gen_call \<Rightarrow> run_state \<Rightarrow> run_state \<times> call_result" where
  \<comment> \<open>\<^verbatim>\<open>await callResearchAPI(...)\<close>: the k-th call of the run gets the k-th response\<close>
  "await_call E c st =
     (let r = gen E (length (issued st));
          st1 = st\<lparr>issued := issued st @ [c]\<rparr>;
          st2 = (if gr_stopped r then st1\<lparr>ui := stopResearch (ui st1)\<rparr> else st1)
      in (st2, gr_result r))"

section \<open>The research run\<close>

text \<open>
  \<^verbatim>\<open>startResearch\<close> reads \<^verbatim>\<open>query\<close>, \<^verbatim>\<open>provider\<close>, \<^verbatim>\<open>model\<close> and the other settings from
  the render it was created in: the argument \<open>c\<close> below is that snapshot, constant during
  the run, while \<open>ui\<close> is the state the setters have produced so far.
\<close>

definition pass_label :: "nat \<Rightarrow> jsstring" where
  \<comment> \<open>\<^verbatim>\<open>PASS_LABELS[Math.min(i, PASS_LABELS.length - 1)]\<close>\<close>
  "pass_label i = PASS_LABELS ! min i (length PASS_LABELS - 1)"

definition pass_begin :: "nat \<Rightarrow> nat \<Rightarrow> run_state \<Rightarrow> run_state" where
  \<comment> \<open>lines 256 to 259: the phase, the pass event and the progress bar\<close>
  "pass_begin numPasses i st =
     (let passLabel = pass_label i;
          u1 = (ui st)\<lparr>currentPhase :=
                 lit ''Pass '' @ show_nat (i + 1) @ lit ''/'' @ show_nat numPasses @
                 lit '': '' @ passLabel\<rparr>;
          u2 = addThought passLabel (ExecutingDetail (i + 1) numPasses) u1;
          u3 = u2\<lparr>progress := 16 + (of_nat i / of_nat numPasses) * 60\<rparr>
      in st\<lparr>ui := u3\<rparr>)"

definition pass_call :: "session \<Rightarrow> nat \<Rightarrow> jsstring \<Rightarrow> jsstring list \<Rightarrow> nat \<Rightarrow> gen_call" where
  \<comment> \<open>lines 261 to 269: the two prompts and the arguments of the call\<close>
  "pass_call c numPasses memSection prior i =
     (let passLabel = pass_label i;
          sys = pass_system_prompt i numPasses passLabel;
          usr = pass_user_prompt (query c) memSection prior passLabel
      in \<lparr>gc_provider = provider c, gc_model = model c, gc_system = sys, gc_user = usr,
          gc_maxTokens = maxTokens c, gc_temperature = temperature c,
          gc_purpose = PassCall i\<rparr>)"

definition pass_complete :: "nat \<Rightarrow> jsstring \<Rightarrow> run_state \<Rightarrow> run_state" where
  \<comment> \<open>lines 270 and 271\<close>
  "pass_complete i response st =
     st\<lparr>passResults := passResults st @ [response],
        ui := addThought (lit ''PASS '' @ show_nat (i + 1) @ lit '' COMPLETE'')
                (WordsDetail (length (split_js response 0x20))) (ui st)\<rparr>"

function passLoop ::
  "environment \<Rightarrow> session \<Rightarrow> nat \<Rightarrow> jsstring \<Rightarrow> nat \<Rightarrow> run_state \<Rightarrow> run_state \<times> js_error option"
where
  "passLoop E c numPasses memSection i st =
     (if \<not> i < numPasses then (st, None)
      else if signal_aborted (ui st) then (st, None)
      else
        let awaited = await_call E (pass_call c numPasses memSection (passResults st) i)
                        (pass_begin numPasses i st)
        in (case snd awaited of
              Threw err \<Rightarrow> (fst awaited, Some err)
            | Returned response \<Rightarrow>
                passLoop E c numPasses memSection (i + 1)
                  (pass_complete i response (fst awaited))))"
  by pat_completeness auto

termination
proof (relation "measure (\<lambda>(E, c, numPasses, memSection, i, st). numPasses - i)")
  show "wf (measure (\<lambda>(E, c, numPasses, memSection, i, st). numPasses - i))"
    by (rule wf_measure)
next
  fix E :: environment and c :: session and numPasses :: nat and memSection :: jsstring
    and i :: nat and st st' :: run_state
  assume "\<not> \<not> i < numPasses"
  then show "((E, c, numPasses, memSection, i + 1, st'), (E, c, numPasses, memSection, i, st))
      \<in> measure (\<lambda>(E, c, numPasses, memSection, i, st). numPasses - i)"
    by simp
qed

declare passLoop.simps [simp del]

definition last_or_empty :: "jsstring list \<Rightarrow> jsstring" where
  \<comment> \<open>\<^verbatim>\<open>passResults[passResults.length - 1] || ''\<close>: index -1 of the empty array is undefined\<close>
  "last_or_empty xs =
     (case (if xs = [] then None else Some (last xs)) of
        None \<Rightarrow> []
      | Some x \<Rightarrow> if x = [] then [] else x)"

definition synthesis_call :: "session \<Rightarrow> jsstring \<Rightarrow> jsstring list \<Rightarrow> gen_call" where
  \<comment> \<open>lines 279 to 284\<close>
  "synthesis_call c memSection prior =
     (let sys = synthesis_system_prompt (length prior);
          usr = synthesis_user_prompt (query c) memSection prior
      in \<lparr>gc_provider = provider c, gc_model = model c, gc_system = sys, gc_user = usr,
          gc_maxTokens = maxTokens c, gc_temperature = temperature c,
          gc_purpose = SynthesisCall\<rparr>)"

definition synthesis_begin :: "run_state \<Rightarrow> run_state" where
  \<comment> \<open>lines 275 to 277\<close>
  "synthesis_begin st =
     (let u1 = (ui st)\<lparr>currentPhase := lit ''Synthesizing...''\<rparr>;
          u2 = u1\<lparr>progress := 85\<rparr>;
          u3 = addThought (lit ''SYNTHESIS'') (SynthesizingDetail (length (passResults st))) u2
      in st\<lparr>ui := u3\<rparr>)"

definition synthesis_step ::
  "environment \<Rightarrow> session \<Rightarrow> nat jsvalue \<Rightarrow> jsstring \<Rightarrow> run_state \<Rightarrow> run_state \<times> js_error option"
where
  "synthesis_step E c numPasses memSection st =
     (if \<not> signal_aborted (ui st) \<and> exceeds_one numPasses \<and> 1 < length (passResults st)
      then
        let awaited = await_call E (synthesis_call c memSection (passResults st))
                        (synthesis_begin st)
        in (case snd awaited of
              Threw err \<Rightarrow> (fst awaited, Some err)
            | Returned text \<Rightarrow> ((fst awaited)\<lparr>finalAnswer := text\<rparr>, None))
      else (st\<lparr>finalAnswer := last_or_empty (passResults st)\<rparr>, None))"

definition publish :: "environment \<Rightarrow> session \<Rightarrow> bool \<Rightarrow> run_state \<Rightarrow> run_state" where
  \<comment> \<open>lines 289 to 323: score, record and persist the result; the persistence calls
      swallow their own failures\<close>
  "publish E c hasMem st =
     (if \<not> signal_aborted (ui st) \<and> finalAnswer st \<noteq> []
      then
        let u1 = (ui st)\<lparr>progress := 95\<rparr>;
            confidence = computeConfidence (finalAnswer st) (length (passResults st)) 0 hasMem;
            u2 = addThought (lit ''COMPLETE'') (DoneDetail confidence) u1;
            resultItem =
              \<lparr>rr_id = show_nat (now_id E), rr_query = query c, rr_answer = finalAnswer st,
               rr_confidence = confidence, rr_provider = provider c, rr_model = model c,
               rr_depth = depth c, rr_timestamp = now_timestamp E\<rparr>;
            u3 = u2\<lparr>results := resultItem # results u2\<rparr>;
            u4 = u3\<lparr>activeResultTab := (activeResultTab u3)(rr_id resultItem \<mapsto> lit ''answer'')\<rparr>;
            persisting = (if stopped_while_persisting E then stopResearch u4 else u4);
            u5 = (if memoryEnabled c then persisting\<lparr>memoryContexts := loaded_memory E\<rparr>
                  else persisting);
            u6 = u5\<lparr>history := loaded_history E\<rparr>;
            u7 = u6\<lparr>progress := 100, currentPhase := [], query := []\<rparr>
        in st\<lparr>ui := u7\<rparr>
      else st)"

definition provider_name :: "jsstring \<Rightarrow> jsstring option" where
  \<comment> \<open>the text of \<^verbatim>\<open>PROVIDERS[provider].name\<close>; \<open>None\<close> when \<^verbatim>\<open>PROVIDERS[provider]\<close> is
      undefined and reading \<^verbatim>\<open>name\<close> throws a TypeError\<close>
  "provider_name p =
     (case get_property PROVIDERS p of
        Own name \<Rightarrow> Some name
      | Inherited \<Rightarrow>
          Some (if p = lit ''constructor'' then lit ''Object''
                else if p = lit ''__proto__'' then lit ''undefined'' else p)
      | Undefined \<Rightarrow> None)"

definition undefined_name_error :: js_error where
  "undefined_name_error =
     JsError (lit ''TypeError'')
       (lit ''Cannot read properties of undefined (reading '' @ [0x27] @ lit ''name'' @ [0x27] @ lit '')'')"

definition announce :: "session \<Rightarrow> jsstring \<Rightarrow> nat jsvalue \<Rightarrow> bool \<Rightarrow> run_state \<Rightarrow> run_state" where
  \<comment> \<open>lines 246 to 251\<close>
  "announce c name numPasses hasMem st =
     (let u1 = addThought (lit ''INITIALIZE'') (InitDetail name (model c) numPasses) (ui st);
          u2 = u1\<lparr>progress := 8\<rparr>;
          u3 = (if hasMem
                then addThought (lit ''MEMORY RETRIEVAL'')
                       (InjectingDetail (fcard (activeContextIds c))) u2
                else u2)
      in st\<lparr>ui := u3\<rparr>)"

definition run_passes ::
  "environment \<Rightarrow> session \<Rightarrow> nat jsvalue \<Rightarrow> jsstring \<Rightarrow> run_state \<Rightarrow> run_state \<times> js_error option"
where
  \<comment> \<open>the \<^verbatim>\<open>for\<close> statement: when \<^verbatim>\<open>numPasses\<close> is not a number, \<^verbatim>\<open>0 < numPasses\<close> is
      already false\<close>
  "run_passes E c numPasses memSection st =
     (case numPasses of
        Own n \<Rightarrow> passLoop E c n memSection 0 st
      | _ \<Rightarrow> (st, None))"

definition try_block ::
  "environment \<Rightarrow> session \<Rightarrow> nat jsvalue \<Rightarrow> jsstring \<Rightarrow> bool \<Rightarrow> run_state \<Rightarrow> run_state \<times> js_error option"
where
  "try_block E c numPasses memSection hasMem st =
     (case provider_name (provider c) of
        None \<Rightarrow> (st, Some undefined_name_error)
      | Some name \<Rightarrow>
          (let looped = run_passes E c numPasses memSection
                          (announce c name numPasses hasMem st)
           in (case snd looped of
                 Some err \<Rightarrow> looped
               | None \<Rightarrow>
                   (let synthesized = synthesis_step E c numPasses memSection (fst looped)
                    in (case snd synthesized of
                          Some err \<Rightarrow> synthesized
                        | None \<Rightarrow> (publish E c hasMem (fst synthesized), None))))))"

definition catch_block :: "js_error option \<Rightarrow> session \<Rightarrow> session" where
  "catch_block thrown s =
     (case thrown of
        None \<Rightarrow> s
      | Some err \<Rightarrow>
          if err_name err \<noteq> lit ''AbortError''
          then addThought (lit ''ERROR'') (MessageDetail (err_message err)) s
          else s)"

definition startResearch_guard :: "session \<Rightarrow> bool" where
  \<comment> \<open>\<^verbatim>\<open>!query.trim() || isResearching\<close>\<close>
  "startResearch_guard s = (trim_js (query s) = [] \<or> isResearching s)"

definition startResearch_enter :: "session \<Rightarrow> session" where
  \<comment> \<open>lines 233 to 236\<close>
  "startResearch_enter s =
     s\<lparr>isResearching := True, thoughts := [], progress := 0, abortRef := Some False\<rparr>"

definition startResearch_finally :: "session \<Rightarrow> session" where
  "startResearch_finally s = s\<lparr>isResearching := False, currentPhase := []\<rparr>"

record run_outcome =
  final :: run_state
  caught :: "js_error option"

definition startResearch :: "environment \<Rightarrow> session \<Rightarrow> run_outcome" where
  "startResearch E s =
     (if startResearch_guard s
      then \<lparr>final = \<lparr>ui = s, passResults = [], finalAnswer = [], issued = []\<rparr>, caught = None\<rparr>
      else
        let numPasses = resolve_numPasses (depth s);
            memSection = buildMemorySection (activeContextIds s) (memoryContexts s);
            hasMem = (0 < fcard (activeContextIds s));
            st0 = \<lparr>ui = startResearch_enter s, passResults = [], finalAnswer = [], issued = []\<rparr>;
            tried = try_block E s numPasses memSection hasMem st0;
            st1 = (fst tried)\<lparr>ui := catch_block (snd tried) (ui (fst tried))\<rparr>
        in \<lparr>final = st1\<lparr>ui := startResearch_finally (ui st1)\<rparr>, caught = snd tried\<rparr>)"

section \<open>Runs within a session\<close>

text \<open>
  Between its entry and its \<^verbatim>\<open>finally\<close> block a run is suspended at an \<^verbatim>\<open>await\<close>, and
  the page handles other events meanwhile. The session model keeps the page state and
  the number of runs that have entered and not yet reached \<^verbatim>\<open>finally\<close>; what a run does
  in between is abstracted to whether it clears the query box on success.
\<close>

datatype ui_event =
    StartPressed
  | StopPressed
  | QueryTyped jsstring
  | RunSettled bool

fun ui_step :: "session \<times> nat \<Rightarrow> ui_event \<Rightarrow> session \<times> nat" where
  "ui_step (s, in_flight) StartPressed =
     (if startResearch_guard s then (s, in_flight)
      else (startResearch_enter s, Suc in_flight))"
| "ui_step (s, in_flight) StopPressed = (stopResearch s, in_flight)"
| "ui_step (s, in_flight) (QueryTyped q) = (s\<lparr>query := q\<rparr>, in_flight)"
| "ui_step (s, in_flight) (RunSettled succeeded) =
     (if in_flight = 0 then (s, in_flight)
      else (startResearch_finally (if succeeded then s\<lparr>query := []\<rparr> else s), in_flight - 1))"

definition ui_run :: "session \<Rightarrow> ui_event list \<Rightarrow> session \<times> nat" where
  "ui_run s evs = foldl ui_step (s, 0) evs"

section \<open>The score as the specification words it\<close>

text \<open>
  The specification's formula counts the words of the answer and asks for a markdown
  heading marker. A word is a maximal run of units that are not white space. A heading
  marker is what the page's own renderer \<^verbatim>\<open>mdToHtml\<close> turns into a heading: one, two or
  three \<^verbatim>\<open>#\<close> and a space where a line begins.
\<close>

definition wordCount :: "jsstring \<Rightarrow> nat" where
  \<comment> \<open>the units that begin a word: not white space, and first or behind white space\<close>
  "wordCount a =
     length (filter (\<lambda>(before, c). is_js_whitespace before \<and> \<not> is_js_whitespace c)
               (zip (0x20 # a) a))"

definition is_line_terminator :: "jschar \<Rightarrow> bool" where
  "is_line_terminator c = (c \<in> {0x0A, 0x0D, 0x2028, 0x2029})"

definition line_starts :: "jsstring \<Rightarrow> jsstring list" where
  \<comment> \<open>the text from its beginning on and from behind each of its line terminators on\<close>
  "line_starts a =
     a # map (\<lambda>i. drop (Suc i) a) (filter (\<lambda>i. is_line_terminator (a ! i)) [0..<length a])"

definition begins_heading :: "jsstring \<Rightarrow> bool" where
  "begins_heading t \<longleftrightarrow>
     prefix (lit ''# '') t \<or> prefix (lit ''## '') t \<or> prefix (lit ''### '') t"

definition contains_heading_marker :: "jsstring \<Rightarrow> bool" where
  "contains_heading_marker a = list_ex begins_heading (line_starts a)"

definition contains_table_pipe :: "jsstring \<Rightarrow> bool" where
  "contains_table_pipe a \<longleftrightarrow> 0x7C \<in> set a"

definition to_lower :: "jschar \<Rightarrow> jschar" where
  "to_lower c = (if 65 \<le> c \<and> c \<le> 90 then c + 32 else c)"

definition rests :: "jsstring \<Rightarrow> jsstring list" where
  \<comment> \<open>what is left of a text from each of its positions on\<close>
  "rests a = map (\<lambda>i. drop i a) [0..<Suc (length a)]"

definition occurs_at_start :: "jsstring \<Rightarrow> jsstring \<Rightarrow> bool" where
  \<comment> \<open>the text begins with the phrase, letter case ignored\<close>
  "occurs_at_start phrase t \<longleftrightarrow>
     length phrase \<le> length t \<and> map to_lower (take (length phrase) t) = map to_lower phrase"

definition occurrences :: "jsstring \<Rightarrow> jsstring \<Rightarrow> nat" where
  \<comment> \<open>the number of positions of the text at which the phrase occurs\<close>
  "occurrences phrase a = length (filter (occurs_at_start phrase) (rests a))"

definition evidence_count :: "jsstring \<Rightarrow> nat" where
  "evidence_count a =
     occurrences (lit ''according to'') a + occurrences (lit ''research shows'') a +
     occurrences (lit ''evidence suggests'') a + occurrences (lit ''data shows'') a"

definition nearest_integer :: "rat \<Rightarrow> int" where
  \<comment> \<open>rounding to the nearest integer, a tie going up\<close>
  "nearest_integer x = (if x - of_int \<lfloor>x\<rfloor> < 1 / 2 then \<lfloor>x\<rfloor> else \<lfloor>x\<rfloor> + 1)"

definition clamp :: "int \<Rightarrow> int \<Rightarrow> int \<Rightarrow> int" where
  "clamp lo hi v = (if v < lo then lo else if hi < v then hi else v)"

definition score_of :: "nat \<Rightarrow> nat \<Rightarrow> nat \<Rightarrow> bool \<Rightarrow> nat \<Rightarrow> bool \<Rightarrow> int" where
  \<comment> \<open>the sum of the specification, from the word term's count, the two counts, the
      memory flag, the number of evidentiary phrases and the outcome of the marker test\<close>
  "score_of w n d m ev marked =
     clamp 22 97
       (nearest_integer
          (45 + min 15 (of_nat w / 120) + min 18 (of_nat n * (7 / 2)) +
           min 12 (of_nat d * 2) + (if m then 5 else 0) +
           min 10 (3 / 2 * of_nat ev) + (if marked then 4 else 0)))"

definition specified_score :: "jsstring \<Rightarrow> nat \<Rightarrow> nat \<Rightarrow> bool \<Rightarrow> int" where
  "specified_score a n d m =
     score_of (wordCount a) n d m (evidence_count a)
       (contains_heading_marker a \<or> contains_table_pipe a)"

text \<open>
  The same sum with the two readings the page has: the word term counts the pieces into
  which the single space characters divide the answer, one more than there are spaces,
  and the marker test looks for two adjacent \<^verbatim>\<open>#\<close> anywhere in the answer.
\<close>

definition pieces_between_spaces :: "jsstring \<Rightarrow> nat" where
  "pieces_between_spaces a = Suc (count_list a 0x20)"

definition has_double_hash_or_pipe :: "jsstring \<Rightarrow> bool" where
  "has_double_hash_or_pipe a \<longleftrightarrow> sublist (lit ''##'') a \<or> contains_table_pipe a"

definition score_formula :: "jsstring \<Rightarrow> nat \<Rightarrow> nat \<Rightarrow> bool \<Rightarrow> int" where
  "score_formula a n d m =
     score_of (pieces_between_spaces a) n d m (evidence_count a) (has_double_hash_or_pipe a)"

definition one_word_per_line :: jsstring where
  \<comment> \<open>sixty lines, each the word \<^verbatim>\<open>a\<close>\<close>
  "one_word_per_line = concat (replicate 60 [0x61, 0x0A])"

subsection \<open>What the scan finds, position by position\<close>

definition hits :: "jsstring list \<Rightarrow> jsstring \<Rightarrow> nat" where
  "hits alts t = length (filter (\<lambda>p. matches_at p t) alts)"

fun total_hits :: "jsstring list \<Rightarrow> jsstring \<Rightarrow> nat" where
  "total_hits alts [] = hits alts []"
| "total_hits alts (c # cs) = hits alts (c # cs) + total_hits alts cs"

definition clash :: "jsstring \<Rightarrow> jsstring \<Rightarrow> nat \<Rightarrow> bool" where
  \<comment> \<open>\<open>q\<close> could start \<open>k\<close> units into an occurrence of \<open>p\<close>\<close>
  "clash p q k =
     (let m = min (length q) (length p - k)
      in map canonicalize (take m (drop k p)) = map canonicalize (take m q))"

definition overlap_free :: "jsstring list \<Rightarrow> bool" where
  "overlap_free alts \<longleftrightarrow>
     distinct (map (\<lambda>p. canonicalize (hd p)) alts) \<and>
     list_all (\<lambda>p. p \<noteq> [] \<and>
        list_all (\<lambda>q. list_all (\<lambda>k. \<not> clash p q k) [1..<length p]) alts) alts"

definition cited_answer :: jsstring where
  "cited_answer = lit ''According to data SHOWS ## x''"

section \<open>Notions for the properties of a run\<close>

definition error_events :: "session \<Rightarrow> thought list" where
  "error_events s = filter (\<lambda>t. th_type t = lit ''ERROR'') (thoughts s)"

definition loop_inv ::
  "environment \<Rightarrow> session \<Rightarrow> nat \<Rightarrow> jsstring \<Rightarrow> ResearchResult list \<Rightarrow> nat \<Rightarrow> run_state \<Rightarrow> bool"
where
  "loop_inv E c n mem R i st \<longleftrightarrow>
     i \<le> n \<and> length (passResults st) = i \<and>
     issued st = map (\<lambda>j. pass_call c n mem (take j (passResults st)) j) [0..<i] \<and>
     (\<forall>j<i. gr_result (gen E j) = Returned (passResults st ! j)) \<and>
     (\<exists>b. abortRef (ui st) = Some b) \<and>
     (signal_aborted (ui st) \<longleftrightarrow> (\<exists>j<i. gr_stopped (gen E j))) \<and>
     (\<forall>j. Suc j < i \<longrightarrow> \<not> gr_stopped (gen E j)) \<and>
     results (ui st) = R \<and> error_events (ui st) = [] \<and> finalAnswer st = []"

definition loop_post ::
  "environment \<Rightarrow> session \<Rightarrow> nat \<Rightarrow> jsstring \<Rightarrow> ResearchResult list \<Rightarrow> run_state \<Rightarrow> js_error option \<Rightarrow> bool"
where
  "loop_post E c n mem R st thrown \<longleftrightarrow>
     length (passResults st) \<le> n \<and>
     issued st =
       map (\<lambda>j. pass_call c n mem (take j (passResults st)) j) [0..<length (issued st)] \<and>
     (\<forall>j<length (passResults st). gr_result (gen E j) = Returned (passResults st ! j)) \<and>
     (\<exists>b. abortRef (ui st) = Some b) \<and>
     (signal_aborted (ui st) \<longleftrightarrow> (\<exists>j<length (issued st). gr_stopped (gen E j))) \<and>
     (\<forall>j. Suc j < length (issued st) \<longrightarrow> \<not> gr_stopped (gen E j)) \<and>
     results (ui st) = R \<and> error_events (ui st) = [] \<and> finalAnswer st = [] \<and>
     (case thrown of
        None \<Rightarrow> length (issued st) = length (passResults st) \<and>
                 (length (passResults st) = n \<or> signal_aborted (ui st))
      | Some e \<Rightarrow> length (issued st) = length (passResults st) + 1 \<and>
                  length (passResults st) < n \<and>
                  gr_result (gen E (length (passResults st))) = Threw e)"

definition pass_bound :: "nat jsvalue \<Rightarrow> nat" where
  "pass_bound v = (case v of Own n \<Rightarrow> n | _ \<Rightarrow> 0)"

definition pass_calls :: "session \<Rightarrow> nat \<Rightarrow> jsstring \<Rightarrow> jsstring list \<Rightarrow> nat \<Rightarrow> gen_call list" where
  "pass_calls c n mem P k = map (\<lambda>j. pass_call c n mem (take j P) j) [0..<k]"

definition error_event :: "js_error \<Rightarrow> thought" where
  "error_event e = \<lparr>th_type = lit ''ERROR'', th_detail = MessageDetail (err_message e)\<rparr>"

definition run_init :: "session \<Rightarrow> jsstring \<Rightarrow> run_state" where
  "run_init s name =
     announce s name (resolve_numPasses (depth s)) (0 < fcard (activeContextIds s))
       \<lparr>ui = startResearch_enter s, passResults = [], finalAnswer = [], issued = []\<rparr>"

definition loop_result :: "environment \<Rightarrow> session \<Rightarrow> jsstring \<Rightarrow> run_state \<times> js_error option" where
  "loop_result E s name =
     run_passes E s (resolve_numPasses (depth s))
       (buildMemorySection (activeContextIds s) (memoryContexts s)) (run_init s name)"

definition synthesis_result :: "environment \<Rightarrow> session \<Rightarrow> jsstring \<Rightarrow> run_state \<times> js_error option" where
  "synthesis_result E s name =
     synthesis_step E s (resolve_numPasses (depth s))
       (buildMemorySection (activeContextIds s) (memoryContexts s))
       (fst (loop_result E s name))"

definition excerpt :: "nat \<Rightarrow> jsstring \<Rightarrow> jsstring" where
  "excerpt n r = take n r @ lit ''...''"

fun contains_in_order :: "'a list list \<Rightarrow> 'a list \<Rightarrow> bool" where
  "contains_in_order [] s = True"
| "contains_in_order (x # xs) s =
     (\<exists>before after. s = before @ x @ after \<and> contains_in_order xs after)"

section \<open>Example sessions and environments\<close>

definition example_session :: session where
  "example_session =
     \<lparr>query = lit ''X'', provider = lit ''anthropic'', model = lit ''claude-sonnet-4-5'',
      depth = lit ''standard'', maxTokens = 4096, temperature = 3 / 10, isResearching = False,
      currentPhase = [], progress = 0, results = [], history = [], memoryContexts = [],
      memoryEnabled = False, activeContextIds = {||}, thoughts = [],
      activeResultTab = Map.empty, abortRef = None\<rparr>"

definition returns :: "string \<Rightarrow> gen_response" where
  "returns t = \<lparr>gr_result = Returned (lit t), gr_stopped = False\<rparr>"

definition api_error :: js_error where
  "api_error = JsError (lit ''Error'') (lit ''API error 500'')"

definition example_environment :: "(nat \<Rightarrow> gen_response) \<Rightarrow> environment" where
  "example_environment g =
     \<lparr>gen = g, now_id = 1700000000000, now_timestamp = 1700000000000,
      loaded_memory = [], loaded_history = [], stopped_while_persisting = False\<rparr>"

definition all_return :: environment where
  "all_return = example_environment (\<lambda>k. returns ''ab'')"

definition second_pass_fails :: environment where
  "second_pass_fails =
     example_environment
       (\<lambda>k. if k = 1 then \<lparr>gr_result = Threw api_error, gr_stopped = False\<rparr>
            else returns ''ab'')"


definition stopped_in_first_pass :: environment where
  "stopped_in_first_pass =
     example_environment
       (\<lambda>k. \<lparr>gr_result = Threw (JsError (lit ''AbortError'') (lit ''The user aborted a request.'')),
             gr_stopped = True\<rparr>)"

definition stopped_after_result :: environment where
  "stopped_after_result = all_return\<lparr>stopped_while_persisting := True\<rparr>"

definition quick_session :: session where
  "quick_session = example_session\<lparr>depth := lit ''quick''\<rparr>"

definition first_context :: MemoryContext where
  "first_context =
     \<lparr>mc_id = lit ''m1'', mc_query = lit ''What is HOL?'', mc_answer = lit ''A logic.'',
      mc_provider = lit ''anthropic'', mc_model = lit ''claude-sonnet-4-5'',
      mc_created_at = None, mc_timestamp = None\<rparr>"

definition second_context :: MemoryContext where
  "second_context =
     \<lparr>mc_id = lit ''m2'', mc_query = lit ''Why?'', mc_answer = lit ''Because.'',
      mc_provider = lit ''openai'', mc_model = lit ''gpt-4o'',
      mc_created_at = None, mc_timestamp = None\<rparr>"


definition one_run_at_most :: "session \<times> nat \<Rightarrow> bool" where
  "one_run_at_most st \<longleftrightarrow> snd st = 0 \<or> (snd st = 1 \<and> isResearching (fst st))"

section \<open>Properties of the confidence scorer\<close>

lemma Math_round_mono: "x \<le> y \<Longrightarrow> Math_round x \<le> Math_round y"
  unfolding Math_round_def by (intro floor_mono) simp

lemma Math_round_of_int: "Math_round (of_int k) = k"
  unfolding Math_round_def by (simp add: floor_eq_iff)

lemma computeConfidence_empty: "computeConfidence [] 0 0 False = 45"
  by (simp add: computeConfidence_def Math_round_def EVIDENCE_PHRASES_def match_global.simps
      first_alternative_def matches_at_def lit_def floor_eq_iff)

lemma computeConfidence_lower: "45 \<le> computeConfidence answer numPasses docChunks hasMem"
proof -
  define a :: rat where "a = min 15 (of_nat (length (split_js answer 0x20)) / 120)"
  define b :: rat where "b = min 18 (of_nat numPasses * (7 / 2))"
  define c :: rat where "c = min 12 (of_nat docChunks * 2)"
  define d :: rat where "d = (if hasMem then 5 else 0)"
  define e :: rat where
    "e = min 10 (of_nat (length (match_global EVIDENCE_PHRASES answer)) * (3 / 2))"
  define f :: rat where
    "f = (if includes_js answer (lit ''##'') \<or> includes_js answer (lit ''|'') then 4 else 0)"
  have nonneg: "0 \<le> a" "0 \<le> b" "0 \<le> c" "0 \<le> d" "0 \<le> e" "0 \<le> f"
    by (simp_all add: a_def b_def c_def d_def e_def f_def)
  have eq: "computeConfidence answer numPasses docChunks hasMem =
      min 97 (max 22 (Math_round (45 + a + b + c + d + e + f)))"
    by (simp add: computeConfidence_def Let_def a_def b_def c_def d_def e_def f_def)
  have "Math_round (of_int 45) \<le> Math_round (45 + a + b + c + d + e + f)"
    using nonneg by (intro Math_round_mono) simp
  then have "45 \<le> Math_round (45 + a + b + c + d + e + f)"
    by (simp only: Math_round_of_int)
  then show ?thesis
    unfolding eq by simp
qed

text \<open>
  C5. Whatever the answer text, the pass count, the chunk count and the memory flag, the
  score is an integer between 22 and 97 inclusive.
\<close>

theorem computeConfidence_range:
  "22 \<le> computeConfidence answer numPasses docChunks hasMem \<and>
   computeConfidence answer numPasses docChunks hasMem \<le> 97"
  by (simp add: computeConfidence_def Let_def)

text \<open>
  C6, as stated, fails: the empty answer with no passes, no chunks and no memory does not
  score 22. It scores 45: the base of the sum is 45 and the split of the empty text has
  one piece.
\<close>

theorem computeConfidence_empty_not_22: "computeConfidence [] 0 0 False \<noteq> 22"
  by (simp add: computeConfidence_empty)

text \<open>
  C6, amended: the empty answer with no passes, no chunks and no memory scores 45, the
  least score the scorer gives on any input; the lower clamp 22 is never reached.
\<close>

theorem computeConfidence_empty_is_least:
  "computeConfidence [] 0 0 False = 45 \<and>
   (\<forall>answer numPasses docChunks hasMem.
      computeConfidence [] 0 0 False \<le> computeConfidence answer numPasses docChunks hasMem)"
  by (simp add: computeConfidence_empty computeConfidence_lower)

subsection \<open>Splitting, searching, rounding and clamping\<close>

lemma split_js_nonempty: "split_js a sep \<noteq> []"
  by (induction a) (auto split: list.split)

lemma split_js_length: "length (split_js a sep) = Suc (count_list a sep)"
  by (induction a) (auto split: list.split simp: split_js_nonempty)

lemma take_is_prefix_iff: "take (length pat) s = pat \<longleftrightarrow> prefix pat s"
  by (metis append_eq_conv_conj prefix_def)

lemma includes_js_sublist: "includes_js a pat \<longleftrightarrow> sublist pat a"
  by (induction a) (auto simp: sublist_Cons_right take_is_prefix_iff simp del: take_Suc_Cons)

lemma includes_js_single: "includes_js a [c] \<longleftrightarrow> c \<in> set a"
  by (induction a) auto

lemma Math_round_nearest: "Math_round x = nearest_integer x"
proof (cases "x - of_int \<lfloor>x\<rfloor> < 1 / 2")
  case True
  have "\<lfloor>x + 1 / 2\<rfloor> = \<lfloor>x\<rfloor>"
  proof (rule floor_unique)
    show "of_int \<lfloor>x\<rfloor> \<le> x + 1 / 2"
      using of_int_floor_le [of x] by linarith
    show "x + 1 / 2 < of_int \<lfloor>x\<rfloor> + 1"
      using True by simp
  qed
  then show ?thesis
    using True by (simp add: Math_round_def nearest_integer_def)
next
  case False
  have "\<lfloor>x + 1 / 2\<rfloor> = \<lfloor>x\<rfloor> + 1"
  proof (rule floor_unique)
    show "of_int (\<lfloor>x\<rfloor> + 1) \<le> x + 1 / 2"
      using False by simp
    show "x + 1 / 2 < of_int (\<lfloor>x\<rfloor> + 1) + 1"
      using floor_correct [of x] by simp
  qed
  then show ?thesis
    using False by (simp add: Math_round_def nearest_integer_def)
qed

lemma min_max_clamp: "min 97 (max 22 v) = clamp 22 97 v" for v :: int
  by (simp add: clamp_def)

subsection \<open>Ignoring case\<close>

lemma lower_case_shifted: "97 \<le> c \<Longrightarrow> c \<le> 122 \<Longrightarrow> 65 \<le> c - 32 \<and> c - 32 \<le> 90"
  for c :: jschar
  by unat_arith

lemma upper_case_shifted: "65 \<le> c \<Longrightarrow> c \<le> 90 \<Longrightarrow> 97 \<le> c + 32 \<and> c + 32 \<le> 122"
  for c :: jschar
  by unat_arith auto

lemma lower_not_upper: "97 \<le> c \<Longrightarrow> \<not> c \<le> 90" for c :: jschar
  by unat_arith

lemma upper_not_lower: "c \<le> 90 \<Longrightarrow> \<not> 97 \<le> c" for c :: jschar
  by unat_arith

lemma canonicalize_cases:
  obtains (lower) "97 \<le> c" "c \<le> 122" "canonicalize c = c - 32" "to_lower c = c"
      "65 \<le> c - 32" "c - 32 \<le> 90"
    | (upper) "65 \<le> c" "c \<le> 90" "canonicalize c = c" "to_lower c = c + 32"
      "97 \<le> c + 32" "c + 32 \<le> 122"
    | (other) "\<not> (97 \<le> c \<and> c \<le> 122)" "\<not> (65 \<le> c \<and> c \<le> 90)"
      "canonicalize c = c" "to_lower c = c"
proof -
  consider "97 \<le> c \<and> c \<le> 122" | "65 \<le> c \<and> c \<le> 90"
    | "\<not> (97 \<le> c \<and> c \<le> 122) \<and> \<not> (65 \<le> c \<and> c \<le> 90)"
    by blast
  then show thesis
  proof cases
    case 1
    then show thesis
      using lower_case_shifted [of c] lower_not_upper [of c]
      by (intro lower) (simp_all add: canonicalize_def to_lower_def)
  next
    case 2
    then show thesis
      using upper_case_shifted [of c] upper_not_lower [of c]
      by (intro upper) (auto simp: canonicalize_def to_lower_def)
  next
    case 3
    then show thesis
      by (intro other) (auto simp: canonicalize_def to_lower_def)
  qed
qed

lemma same_canonical_form: "canonicalize x = canonicalize y \<longleftrightarrow> to_lower x = to_lower y"
proof (cases x rule: canonicalize_cases)
  case lower
  note x = this
  show ?thesis
  proof (cases y rule: canonicalize_cases)
    case lower
    then show ?thesis using x by simp
  next
    case upper
    then show ?thesis using x by (auto simp: algebra_simps)
  next
    case other
    then show ?thesis using x by auto
  qed
next
  case upper
  note x = this
  show ?thesis
  proof (cases y rule: canonicalize_cases)
    case lower
    then show ?thesis using x by (auto simp: algebra_simps)
  next
    case upper
    then show ?thesis using x by simp
  next
    case other
    then show ?thesis using x by auto
  qed
next
  case other
  note x = this
  show ?thesis
  proof (cases y rule: canonicalize_cases)
    case lower
    then show ?thesis using x by auto
  next
    case upper
    then show ?thesis using x by auto
  next
    case other
    then show ?thesis using x by simp
  qed
qed

lemma map_eq_iff_all2: "map f xs = map f ys \<longleftrightarrow> list_all2 (\<lambda>x y. f x = f y) xs ys"
  using list.rel_map(1) [of "(=)" f xs "map f ys"] list.rel_map(2) [of "\<lambda>x y. f x = y" xs f ys]
  by (simp add: list.rel_eq)

lemma matches_at_iff: "matches_at p t \<longleftrightarrow> occurs_at_start p t"
  unfolding matches_at_def occurs_at_start_def map_eq_iff_all2 same_canonical_form ..

subsection \<open>The scan counts every occurrence\<close>

lemma count_by_sum: "length (filter P xs) = sum_list (map (\<lambda>x. if P x then 1 else 0) xs)"
  by (induction xs) auto

lemma rests_Nil [simp]: "rests [] = [[]]"
  by (simp add: rests_def)

lemma rests_Cons [simp]: "rests (c # cs) = (c # cs) # rests cs"
proof -
  have "[0..<Suc (Suc (length cs))] = 0 # [Suc 0..<Suc (Suc (length cs))]"
    by (rule upt_conv_Cons) simp
  also have "[Suc 0..<Suc (Suc (length cs))] = map Suc [0..<Suc (length cs)]"
    by (rule map_Suc_upt [symmetric])
  finally have "[0..<Suc (Suc (length cs))] = 0 # map Suc [0..<Suc (length cs)]" .
  then show ?thesis
    by (simp add: rests_def comp_def del: upt_Suc)
qed

lemma total_hits_by_phrase:
  "total_hits alts a = sum_list (map (\<lambda>p. length (filter (matches_at p) (rests a))) alts)"
proof (induction a)
  case Nil
  have "length (filter (matches_at p) (rests [])) = (if matches_at p [] then 1 else 0)" for p
    by simp
  then show ?case
    by (simp add: hits_def count_by_sum)
next
  case (Cons c cs)
  have "sum_list (map (\<lambda>p. length (filter (matches_at p) (rests (c # cs)))) alts) =
      sum_list (map (\<lambda>p. (if matches_at p (c # cs) then 1 else 0) +
        length (filter (matches_at p) (rests cs))) alts)"
    by (intro arg_cong [of _ _ sum_list] map_cong) auto
  also have "\<dots> = hits alts (c # cs) +
      sum_list (map (\<lambda>p. length (filter (matches_at p) (rests cs))) alts)"
    by (simp add: sum_list_addf hits_def count_by_sum)
  finally show ?case
    using Cons by simp
qed

lemma hits_at_most_one:
  assumes "distinct (map (\<lambda>p. canonicalize (hd p)) alts)" and "\<forall>p\<in>set alts. p \<noteq> []"
  shows "hits alts t \<le> 1"
proof -
  have head: "canonicalize (hd p) = canonicalize (hd t)" if "p \<noteq> []" "matches_at p t" for p
  proof -
    from that obtain x p' where p: "p = x # p'"
      by (cases p) auto
    with that(2) obtain y t' where t: "t = y # t'"
      by (cases t) (auto simp: matches_at_def)
    show ?thesis
      using that(2) by (simp add: p t matches_at_def)
  qed
  from assms show ?thesis
    unfolding hits_def
  proof (induction alts)
    case Nil
    then show ?case by simp
  next
    case (Cons p ps)
    show ?case
    proof (cases "matches_at p t")
      case False
      then show ?thesis
        using Cons by simp
    next
      case True
      have "filter (\<lambda>q. matches_at q t) ps = []"
      proof (rule ccontr)
        assume "filter (\<lambda>q. matches_at q t) ps \<noteq> []"
        then obtain q where q: "q \<in> set ps" "matches_at q t"
          by (metis filter_False)
        then have "canonicalize (hd q) = canonicalize (hd p)"
          using head [of q] head [of p] True Cons.prems(2) by simp
        then show False
          using Cons.prems(1) q(1) by (auto simp: image_iff)
      qed
      then show ?thesis
        using True by simp
    qed
  qed
qed

lemma first_alternative_None: "first_alternative alts t = None \<longleftrightarrow> hits alts t = 0"
  by (auto simp: first_alternative_def hits_def find_None_iff filter_empty_conv)

lemma first_alternative_Some:
  assumes "first_alternative alts t = Some p"
  shows "p \<in> set alts" and "matches_at p t" and "0 < hits alts t"
proof -
  from assms show "p \<in> set alts" "matches_at p t"
    by (auto simp: first_alternative_def find_Some_iff)
  then show "0 < hits alts t"
    by (auto simp: hits_def filter_empty_conv)
qed

lemma no_hit_inside:
  assumes free: "overlap_free alts" and p: "p \<in> set alts" "matches_at p t"
    and k: "0 < k" "k < length p"
  shows "hits alts (drop k t) = 0"
proof -
  have "\<not> matches_at q (drop k t)" if q: "q \<in> set alts" for q
  proof
    assume m: "matches_at q (drop k t)"
    define n where "n = min (length q) (length p - k)"
    have np: "n \<le> length p - k" and nq: "n \<le> length q"
      by (simp_all add: n_def)
    have "\<not> clash p q k"
      using free p(1) q k by (auto simp: overlap_free_def list_all_iff)
    then have differ: "map canonicalize (take n (drop k p)) \<noteq> map canonicalize (take n q)"
      by (simp add: clash_def n_def Let_def)
    have "map canonicalize (take n (drop k p)) = take n (drop k (map canonicalize p))"
      by (simp add: take_map drop_map)
    also have "\<dots> = take n (drop k (map canonicalize (take (length p) t)))"
      using p(2) by (simp add: matches_at_def)
    also have "\<dots> = map canonicalize (take n (drop k (take (length p) t)))"
      by (simp add: take_map drop_map)
    also have "take n (drop k (take (length p) t)) = take n (drop k t)"
      using np by (simp add: drop_take min_def)
    also have "map canonicalize (take n (drop k t)) =
        take n (map canonicalize (take (length q) (drop k t)))"
      using nq by (simp add: take_map min_def)
    also have "\<dots> = take n (map canonicalize q)"
      using m by (simp add: matches_at_def)
    also have "\<dots> = map canonicalize (take n q)"
      by (simp add: take_map)
    finally show False
      using differ by simp
  qed
  then show ?thesis
    by (simp add: hits_def filter_empty_conv)
qed

lemma total_hits_step:
  assumes "k < length t"
  shows "total_hits alts (drop k t) = hits alts (drop k t) + total_hits alts (drop (Suc k) t)"
proof -
  have "drop k t = t ! k # drop (Suc k) t"
    using assms by (rule Cons_nth_drop_Suc [symmetric])
  then show ?thesis
    by simp
qed

lemma total_hits_skip:
  assumes free: "overlap_free alts" and p: "p \<in> set alts" "matches_at p t"
    and k: "0 < k" "k \<le> length p"
  shows "total_hits alts (drop k t) = total_hits alts (drop (length p) t)"
  using k
proof (induction "length p - k" arbitrary: k)
  case 0
  then show ?case by simp
next
  case (Suc d)
  then have lt: "k < length p"
    by simp
  moreover have "length p \<le> length t"
    using p(2) by (simp add: matches_at_def)
  ultimately have "total_hits alts (drop k t) =
      hits alts (drop k t) + total_hits alts (drop (Suc k) t)"
    by (intro total_hits_step) simp
  also have "hits alts (drop k t) = 0"
    using free p Suc.prems(1) lt by (rule no_hit_inside)
  also have "total_hits alts (drop (Suc k) t) = total_hits alts (drop (length p) t)"
    using Suc.hyps lt by (intro Suc.hyps(1)) simp_all
  finally show ?case
    by simp
qed

lemma match_global_None:
  "first_alternative alts t = None \<Longrightarrow>
   match_global alts t = (if t = [] then [] else match_global alts (tl t))"
  by (subst match_global.simps) (simp only: option.case)

lemma match_global_Some:
  "first_alternative alts t = Some p \<Longrightarrow>
   match_global alts t =
     take (length p) t #
     (if t = [] then [] else match_global alts (drop (max 1 (length p)) t))"
  by (subst match_global.simps) (simp only: option.case)

lemma match_global_count:
  "overlap_free alts \<Longrightarrow> length (match_global alts t) = total_hits alts t"
proof (induction alts t rule: match_global.induct)
  case (1 alts t)
  note free = "1.prems"
  have nonempty: "\<forall>p\<in>set alts. p \<noteq> []"
    using free unfolding overlap_free_def list_all_iff by blast
  have heads: "distinct (map (\<lambda>p. canonicalize (hd p)) alts)"
    using free unfolding overlap_free_def by blast
  show ?case
  proof (cases "first_alternative alts t")
    case None
    then have zero: "hits alts t = 0"
      by (simp add: first_alternative_None)
    show ?thesis
    proof (cases t)
      case Nil
      have "match_global alts t = []"
        unfolding match_global_None [OF None] using Nil by simp
      then show ?thesis
        using zero Nil by simp
    next
      case (Cons c cs)
      then have nonnil: "t \<noteq> []"
        by simp
      have "match_global alts t = match_global alts (tl t)"
        unfolding match_global_None [OF None] using nonnil by simp
      moreover have "length (match_global alts (tl t)) = total_hits alts (tl t)"
        by (rule "1.IH"(1)) (use None nonnil free in simp_all)
      ultimately show ?thesis
        using zero Cons by simp
    qed
  next
    case (Some p)
    note found = first_alternative_Some [OF Some]
    have "hits alts t \<le> 1"
      using heads nonempty by (rule hits_at_most_one)
    then have one: "hits alts t = 1"
      using found(3) by simp
    have len: "0 < length p" "length p \<le> length t"
      using nonempty found(1,2) by (auto simp: matches_at_def)
    then have nonnil: "t \<noteq> []"
      by auto
    have max: "max 1 (length p) = length p"
      using len(1) by (cases p) simp_all
    have "match_global alts t = take (length p) t # match_global alts (drop (length p) t)"
      unfolding match_global_Some [OF Some] max using nonnil by simp
    moreover have "length (match_global alts (drop (max 1 (length p)) t)) =
        total_hits alts (drop (max 1 (length p)) t)"
      by (rule "1.IH"(2)) (use Some nonnil free in simp_all)
    moreover have "total_hits alts (drop 1 t) = total_hits alts (drop (length p) t)"
    proof (rule total_hits_skip [OF free found(1,2)])
      show "0 < (1 :: nat)"
        by simp
      show "1 \<le> length p"
        using len(1) by (cases p) simp_all
    qed
    moreover have "total_hits alts t = hits alts t + total_hits alts (drop 1 t)"
      using nonnil by (cases t) simp_all
    ultimately show ?thesis
      using one max by simp
  qed
qed

lemma evidence_phrases_overlap_free: "overlap_free EVIDENCE_PHRASES"
  by (simp add: overlap_free_def EVIDENCE_PHRASES_def clash_def canonicalize_def lit_def
      Let_def upt_rec)

lemma evidence_count_scan: "length (match_global EVIDENCE_PHRASES a) = evidence_count a"
proof -
  have "length (match_global EVIDENCE_PHRASES a) = total_hits EVIDENCE_PHRASES a"
    by (rule match_global_count) (rule evidence_phrases_overlap_free)
  also have "\<dots> = evidence_count a"
    unfolding total_hits_by_phrase
    by (simp add: EVIDENCE_PHRASES_def evidence_count_def occurrences_def matches_at_iff [abs_def])
  finally show ?thesis .
qed

section \<open>The score formula\<close>

lemma pieces_split: "length (split_js a 0x20) = pieces_between_spaces a"
  by (simp add: split_js_length pieces_between_spaces_def)

lemma marker_test:
  "includes_js a (lit ''##'') \<or> includes_js a (lit ''|'') \<longleftrightarrow> has_double_hash_or_pipe a"
proof -
  have "lit ''|'' = [0x7C]"
    by (simp add: lit_def)
  then show ?thesis
    by (simp add: has_double_hash_or_pipe_def contains_table_pipe_def includes_js_sublist
        includes_js_single [symmetric])
qed

lemma one_word_per_line_units: "set one_word_per_line = {0x61, 0x0A}"
  by (auto simp: one_word_per_line_def)

lemma words_of_lines:
  "is_js_whitespace b \<Longrightarrow>
   length (filter (\<lambda>(before, c). is_js_whitespace before \<and> \<not> is_js_whitespace c)
     (zip (b # concat (replicate n [0x61, 0x0A])) (concat (replicate n [0x61, 0x0A])))) = n"
proof (induction n arbitrary: b)
  case 0
  then show ?case by simp
next
  case (Suc n)
  have "is_js_whitespace 0x0A" "\<not> is_js_whitespace 0x61"
    by (simp_all add: is_js_whitespace_def)
  then show ?case
    using Suc.prems Suc.IH [of "0x0A"] by simp
qed

lemma wordCount_one_word_per_line: "wordCount one_word_per_line = 60"
proof -
  have "is_js_whitespace 0x20"
    by (simp add: is_js_whitespace_def)
  then show ?thesis
    unfolding wordCount_def one_word_per_line_def by (rule words_of_lines)
qed

lemma occurrences_none:
  assumes "u \<in> set phrase" and "to_lower u \<notin> to_lower ` set a"
  shows "occurrences phrase a = 0"
proof -
  have "\<not> occurs_at_start phrase t" if "t \<in> set (rests a)" for t
  proof
    assume "occurs_at_start phrase t"
    then have "map to_lower (take (length phrase) t) = map to_lower phrase"
      by (simp add: occurs_at_start_def)
    then have "to_lower ` set (take (length phrase) t) = to_lower ` set phrase"
      by (metis set_map)
    moreover from that have "t \<in> (\<lambda>i. drop i a) ` set [0..<Suc (length a)]"
      by (simp only: rests_def set_map)
    then obtain i where "t = drop i a"
      by blast
    then have "set (take (length phrase) t) \<subseteq> set a"
      by (meson set_drop_subset set_take_subset subset_trans)
    ultimately show False
      using assms by blast
  qed
  then show ?thesis
    by (simp add: occurrences_def filter_empty_conv)
qed

lemma evidence_count_one_word_per_line: "evidence_count one_word_per_line = 0"
proof -
  have lower: "to_lower ` set one_word_per_line = {0x61, 0x0A}"
    unfolding one_word_per_line_units image_insert image_empty by (simp add: to_lower_def)
  have absent: "to_lower u \<notin> to_lower ` set one_word_per_line"
    if "u \<in> {0x63, 0x72, 0x76, 0x64}" for u
    unfolding lower using that by (auto simp: to_lower_def)
  have "occurrences (lit ''according to'') one_word_per_line = 0"
    by (rule occurrences_none [where u = "0x63"]) (simp_all add: absent lit_def)
  moreover have "occurrences (lit ''research shows'') one_word_per_line = 0"
    by (rule occurrences_none [where u = "0x72"]) (simp_all add: absent lit_def)
  moreover have "occurrences (lit ''evidence suggests'') one_word_per_line = 0"
    by (rule occurrences_none [where u = "0x76"]) (simp_all add: absent lit_def)
  moreover have "occurrences (lit ''data shows'') one_word_per_line = 0"
    by (rule occurrences_none [where u = "0x64"]) (simp_all add: absent lit_def)
  ultimately show ?thesis
    by (simp add: evidence_count_def)
qed

lemma one_word_per_line_unmarked:
  "\<not> sublist (lit ''##'') one_word_per_line" "\<not> contains_table_pipe one_word_per_line"
  "\<not> contains_heading_marker one_word_per_line" "count_list one_word_per_line 0x20 = 0"
proof -
  show "\<not> sublist (lit ''##'') one_word_per_line"
  proof
    assume "sublist (lit ''##'') one_word_per_line"
    then have "set (lit ''##'') \<subseteq> set one_word_per_line"
      by (rule set_mono_sublist)
    then show False
      by (simp add: one_word_per_line_units lit_def)
  qed
  show "\<not> contains_table_pipe one_word_per_line"
    by (simp add: contains_table_pipe_def one_word_per_line_units)
  show "\<not> contains_heading_marker one_word_per_line"
  proof
    assume "contains_heading_marker one_word_per_line"
    then obtain t where t: "t \<in> set (line_starts one_word_per_line)" and "begins_heading t"
      by (auto simp: contains_heading_marker_def list_ex_iff)
    then have "prefix [0x23] t"
      by (auto simp: begins_heading_def lit_def prefix_def)
    then have "0x23 \<in> set t"
      by (auto simp: prefix_def)
    moreover have "set t \<subseteq> set one_word_per_line"
      using t by (auto simp: line_starts_def dest: in_set_dropD)
    ultimately show False
      by (auto simp: one_word_per_line_units)
  qed
  show "count_list one_word_per_line 0x20 = 0"
    by (simp add: count_list_0_iff one_word_per_line_units)
qed

text \<open>
  C4, as stated, fails where the word count or the heading test of the page is not that
  of the formula. The answer \<^verbatim>\<open># Title\<close> holds a heading marker (the page renders it as a
  first-level heading), so the formula adds 4 and gives 49; the page looks for \<^verbatim>\<open>##\<close>
  and gives 45. An answer of sixty one-letter lines has sixty words, so the formula gives
  \<open>45 + 60/120\<close> rounded, which is 46; the page finds no space in it, counts one piece and
  gives 45.
\<close>

theorem computeConfidence_not_as_specified:
  "computeConfidence (lit ''# Title'') 0 0 False = 45 \<and>
   specified_score (lit ''# Title'') 0 0 False = 49 \<and>
   computeConfidence one_word_per_line 0 0 False = 45 \<and>
   specified_score one_word_per_line 0 0 False = 46"
proof -
  have "computeConfidence (lit ''# Title'') 0 0 False = 45"
    by (simp add: computeConfidence_def Math_round_def EVIDENCE_PHRASES_def match_global.simps
        first_alternative_def matches_at_def lit_def canonicalize_def floor_eq_iff)
  moreover have "specified_score (lit ''# Title'') 0 0 False = 49"
    by (simp add: specified_score_def score_of_def wordCount_def is_js_whitespace_def
        contains_heading_marker_def line_starts_def is_line_terminator_def begins_heading_def
        contains_table_pipe_def evidence_count_def occurrences_def rests_def
        occurs_at_start_def to_lower_def Math_round_nearest [symmetric] Math_round_def clamp_def
        lit_def floor_eq_iff)
  moreover have "computeConfidence one_word_per_line 0 0 False = 45"
    unfolding computeConfidence_def Let_def pieces_split evidence_count_scan marker_test
    by (simp add: pieces_between_spaces_def has_double_hash_or_pipe_def Math_round_def
        evidence_count_one_word_per_line one_word_per_line_unmarked floor_eq_iff)
  moreover have "specified_score one_word_per_line 0 0 False = 46"
    by (simp add: specified_score_def score_of_def wordCount_one_word_per_line
        evidence_count_one_word_per_line one_word_per_line_unmarked
        Math_round_nearest [symmetric] Math_round_def clamp_def floor_eq_iff)
  ultimately show ?thesis
    by simp
qed

text \<open>
  C4, amended. For every answer, pass count, chunk count and memory flag the score is the
  sum of 45, the number of pieces between single spaces over 120 capped at 15, 3.5 per
  pass capped at 18, 2 per chunk capped at 12, 5 when memory is active, 1.5 per
  occurrence of one of the four evidentiary phrases (letter case ignored) capped at 10,
  and 4 when the answer contains \<^verbatim>\<open>##\<close> or a pipe, rounded to the nearest integer and
  clamped to the range from 22 to 97.
\<close>

theorem computeConfidence_formula:
  "computeConfidence answer numPasses docChunks hasMem =
   score_formula answer numPasses docChunks hasMem"
proof -
  have "computeConfidence answer numPasses docChunks hasMem =
      min 97 (max 22 (Math_round
        (45 + min 15 (of_nat (pieces_between_spaces answer) / 120) +
         min 18 (of_nat numPasses * (7 / 2)) +
         min 12 (of_nat docChunks * 2) + (if hasMem then 5 else 0) +
         min 10 (3 / 2 * of_nat (evidence_count answer)) +
         (if has_double_hash_or_pipe answer then 4 else 0))))"
    unfolding computeConfidence_def Let_def pieces_split evidence_count_scan marker_test
    by (simp add: mult.commute)
  then show ?thesis
    by (simp only: score_formula_def score_of_def Math_round_nearest min_max_clamp)
qed

theorem computeConfidence_formula_witness:
  "computeConfidence cited_answer 3 0 True = 68 \<and> score_formula cited_answer 3 0 True = 68"
proof -
  have "computeConfidence cited_answer 3 0 True = 68"
    by (simp add: computeConfidence_def Math_round_def EVIDENCE_PHRASES_def match_global.simps
        first_alternative_def matches_at_def lit_def canonicalize_def floor_eq_iff
        cited_answer_def)
  then show ?thesis
    using computeConfidence_formula [of cited_answer 3 0 True] by simp
qed

subsection \<open>Projections of the building blocks\<close>

lemma await_call_fields [simp]:
  "passResults (fst (await_call E call st)) = passResults st"
  "finalAnswer (fst (await_call E call st)) = finalAnswer st"
  "issued (fst (await_call E call st)) = issued st @ [call]"
  "ui (fst (await_call E call st)) =
     (if gr_stopped (gen E (length (issued st))) then stopResearch (ui st) else ui st)"
  "snd (await_call E call st) = gr_result (gen E (length (issued st)))"
  by (simp_all add: await_call_def Let_def)

lemma stopResearch_fields [simp]:
  "results (stopResearch s) = results s"
  "thoughts (stopResearch s) = thoughts s"
  "abortRef (stopResearch s) = map_option (\<lambda>_. True) (abortRef s)"
  "isResearching (stopResearch s) = False"
  by (simp_all add: stopResearch_def)

lemma addThought_fields [simp]:
  "results (addThought ty d s) = results s"
  "abortRef (addThought ty d s) = abortRef s"
  "thoughts (addThought ty d s) = thoughts s @ [\<lparr>th_type = ty, th_detail = d\<rparr>]"
  by (simp_all add: addThought_def)

lemma error_events_simps [simp]:
  "error_events (stopResearch s) = error_events s"
  "error_events (addThought ty d s) =
     error_events s @ (if ty = lit ''ERROR'' then [\<lparr>th_type = ty, th_detail = d\<rparr>] else [])"
  "error_events (s\<lparr>currentPhase := p\<rparr>) = error_events s"
  "error_events (s\<lparr>progress := x\<rparr>) = error_events s"
  by (simp_all add: error_events_def)

lemma signal_aborted_simps [simp]:
  "signal_aborted (addThought ty d s) = signal_aborted s"
  "signal_aborted (s\<lparr>currentPhase := p\<rparr>) = signal_aborted s"
  "signal_aborted (s\<lparr>progress := x\<rparr>) = signal_aborted s"
  "signal_aborted (stopResearch s) = (abortRef s \<noteq> None)"
  by (auto simp: signal_aborted_def)

lemma pass_label_in: "pass_label i \<in> set PASS_LABELS"
  unfolding pass_label_def by (rule nth_mem) (simp add: PASS_LABELS_def)

lemma ERROR_not_a_label: "lit ''ERROR'' \<notin> set PASS_LABELS"
  by (simp add: PASS_LABELS_def lit_def)

lemma pass_label_not_ERROR [simp]: "pass_label i \<noteq> lit ''ERROR''"
  using pass_label_in [of i] ERROR_not_a_label by metis

lemma pass_complete_label_not_ERROR [simp]:
  "lit ''PASS '' @ show_nat k @ lit '' COMPLETE'' \<noteq> lit ''ERROR''"
  by (simp add: lit_def)

lemma other_labels_not_ERROR [simp]:
  "lit ''INITIALIZE'' \<noteq> lit ''ERROR''" "lit ''MEMORY RETRIEVAL'' \<noteq> lit ''ERROR''"
  "lit ''SYNTHESIS'' \<noteq> lit ''ERROR''" "lit ''COMPLETE'' \<noteq> lit ''ERROR''"
  by (simp_all add: lit_def)

lemma pass_begin_fields [simp]:
  "passResults (pass_begin n i st) = passResults st"
  "finalAnswer (pass_begin n i st) = finalAnswer st"
  "issued (pass_begin n i st) = issued st"
  "results (ui (pass_begin n i st)) = results (ui st)"
  "abortRef (ui (pass_begin n i st)) = abortRef (ui st)"
  "signal_aborted (ui (pass_begin n i st)) = signal_aborted (ui st)"
  "error_events (ui (pass_begin n i st)) = error_events (ui st)"
  by (simp_all add: pass_begin_def Let_def)

lemma pass_complete_fields [simp]:
  "passResults (pass_complete i r st) = passResults st @ [r]"
  "finalAnswer (pass_complete i r st) = finalAnswer st"
  "issued (pass_complete i r st) = issued st"
  "results (ui (pass_complete i r st)) = results (ui st)"
  "abortRef (ui (pass_complete i r st)) = abortRef (ui st)"
  "signal_aborted (ui (pass_complete i r st)) = signal_aborted (ui st)"
  "error_events (ui (pass_complete i r st)) = error_events (ui st)"
  by (simp_all add: pass_complete_def)

lemma take_prior_append: "j \<le> length P \<Longrightarrow> take j (P @ [r]) = take j P"
  by simp

lemma issued_extend:
  assumes "length P = i"
  shows "map (\<lambda>j. pass_call c n mem (take j P) j) [0..<i] @ [pass_call c n mem P i] =
         map (\<lambda>j. pass_call c n mem (take j (P @ [r])) j) [0..<Suc i]"
  using assms by simp

lemma issued_extend_thrown:
  assumes "length P = i"
  shows "map (\<lambda>j. pass_call c n mem (take j P) j) [0..<i] @ [pass_call c n mem P i] =
         map (\<lambda>j. pass_call c n mem (take j P) j) [0..<Suc i]"
  using assms by simp

lemma loop_inv_exit:
  assumes "loop_inv E c n mem R i st" and "\<not> i < n \<or> signal_aborted (ui st)"
  shows "loop_post E c n mem R st None"
  using assms unfolding loop_inv_def loop_post_def by auto

lemma loop_inv_thrown:
  assumes inv: "loop_inv E c n mem R i st" and "i < n" and "\<not> signal_aborted (ui st)"
    and thrown: "gr_result (gen E i) = Threw e"
  shows "loop_post E c n mem R
           (fst (await_call E (pass_call c n mem (passResults st) i) (pass_begin n i st)))
           (Some e)"
proof -
  define st' where
    "st' = fst (await_call E (pass_call c n mem (passResults st) i) (pass_begin n i st))"
  from inv have len: "length (passResults st) = i"
    and iss: "issued st = map (\<lambda>j. pass_call c n mem (take j (passResults st)) j) [0..<i]"
    and ret: "\<forall>j<i. gr_result (gen E j) = Returned (passResults st ! j)"
    and ab: "\<exists>b. abortRef (ui st) = Some b"
    and abi: "signal_aborted (ui st) \<longleftrightarrow> (\<exists>j<i. gr_stopped (gen E j))"
    and rest: "results (ui st) = R" "error_events (ui st) = []" "finalAnswer st = []"
    unfolding loop_inv_def by simp_all
  have leni: "length (issued st) = i"
    by (subst iss) simp
  have none: "\<forall>j<i. \<not> gr_stopped (gen E j)"
    using abi \<open>\<not> signal_aborted (ui st)\<close> by blast
  have stop_iff: "(\<exists>j<Suc i. gr_stopped (gen E j)) \<longleftrightarrow> gr_stopped (gen E i)"
    using none less_Suc_eq by auto
  have P': "passResults st' = passResults st"
    by (simp add: st'_def)
  have I': "issued st' = issued st @ [pass_call c n mem (passResults st) i]"
    by (simp add: st'_def)
  have I'': "issued st' = map (\<lambda>j. pass_call c n mem (take j (passResults st)) j) [0..<Suc i]"
    unfolding I' by (subst iss) (simp add: len)
  have lenI': "length (issued st') = Suc i"
    by (simp add: I' leni)
  have ui': "ui st' = (if gr_stopped (gen E i) then stopResearch (ui (pass_begin n i st))
                       else ui (pass_begin n i st))"
    by (simp add: st'_def leni)
  have ab': "\<exists>b. abortRef (ui st') = Some b"
    using ab by (auto simp: ui')
  have abi': "signal_aborted (ui st') \<longleftrightarrow> (\<exists>j<length (issued st'). gr_stopped (gen E j))"
    unfolding lenI' stop_iff using ab \<open>\<not> signal_aborted (ui st)\<close> by (auto simp: ui')
  have rest': "results (ui st') = R" "error_events (ui st') = []" "finalAnswer st' = []"
    using rest by (simp_all add: ui') (simp add: st'_def)
  have last_only: "\<forall>j. Suc j < length (issued st') \<longrightarrow> \<not> gr_stopped (gen E j)"
    unfolding lenI' using none by simp
  show ?thesis
    unfolding loop_post_def st'_def [symmetric] P'
    using len ret ab' abi' rest' \<open>i < n\<close> thrown I'' lenI' last_only
    by simp
qed

lemma loop_inv_step:
  assumes inv: "loop_inv E c n mem R i st" and "i < n" and "\<not> signal_aborted (ui st)"
    and returned: "gr_result (gen E i) = Returned r"
  shows "loop_inv E c n mem R (i + 1)
           (pass_complete i r
              (fst (await_call E (pass_call c n mem (passResults st) i) (pass_begin n i st))))"
proof -
  define st' where
    "st' = pass_complete i r
       (fst (await_call E (pass_call c n mem (passResults st) i) (pass_begin n i st)))"
  from inv have len: "length (passResults st) = i"
    and iss: "issued st = map (\<lambda>j. pass_call c n mem (take j (passResults st)) j) [0..<i]"
    and ret: "\<forall>j<i. gr_result (gen E j) = Returned (passResults st ! j)"
    and ab: "\<exists>b. abortRef (ui st) = Some b"
    and abi: "signal_aborted (ui st) \<longleftrightarrow> (\<exists>j<i. gr_stopped (gen E j))"
    and rest: "results (ui st) = R" "error_events (ui st) = []" "finalAnswer st = []"
    unfolding loop_inv_def by simp_all
  have leni: "length (issued st) = i"
    by (subst iss) simp
  have none: "\<forall>j<i. \<not> gr_stopped (gen E j)"
    using abi \<open>\<not> signal_aborted (ui st)\<close> by blast
  have stop_iff: "(\<exists>j<Suc i. gr_stopped (gen E j)) \<longleftrightarrow> gr_stopped (gen E i)"
    using none less_Suc_eq by auto
  have P': "passResults st' = passResults st @ [r]"
    by (simp add: st'_def)
  have I': "issued st' = issued st @ [pass_call c n mem (passResults st) i]"
    by (simp add: st'_def)
  have I'': "issued st' =
      map (\<lambda>j. pass_call c n mem (take j (passResults st @ [r])) j) [0..<Suc i]"
    unfolding I' by (subst iss) (simp add: len)
  have ret': "\<forall>j<Suc i. gr_result (gen E j) = Returned ((passResults st @ [r]) ! j)"
    using ret returned len by (auto simp: less_Suc_eq nth_append)
  have ab': "\<exists>b. abortRef (ui st') = Some b"
    using ab by (auto simp: st'_def leni)
  have abi': "signal_aborted (ui st') \<longleftrightarrow> (\<exists>j<Suc i. gr_stopped (gen E j))"
    unfolding stop_iff using ab \<open>\<not> signal_aborted (ui st)\<close> by (auto simp: st'_def leni)
  have rest': "results (ui st') = R" "error_events (ui st') = []" "finalAnswer st' = []"
    using rest by (simp_all add: st'_def leni)
  have last_only: "\<forall>j. Suc j < Suc i \<longrightarrow> \<not> gr_stopped (gen E j)"
    using none by simp
  show ?thesis
    unfolding loop_inv_def st'_def [symmetric] P'
    using len ret' ab' abi' rest' \<open>i < n\<close> I'' last_only
    by simp
qed

lemma passLoop_exit:
  "\<not> (i < n \<and> \<not> signal_aborted (ui st)) \<Longrightarrow> passLoop E c n mem i st = (st, None)"
  by (subst passLoop.simps) auto

lemma passLoop_thrown:
  assumes "i < n" and "\<not> signal_aborted (ui st)"
    and "snd (await_call E (pass_call c n mem (passResults st) i) (pass_begin n i st)) = Threw e"
  shows "passLoop E c n mem i st =
    (fst (await_call E (pass_call c n mem (passResults st) i) (pass_begin n i st)), Some e)"
  using assms by (subst passLoop.simps) (simp add: Let_def)

lemma passLoop_returned:
  assumes "i < n" and "\<not> signal_aborted (ui st)"
    and "snd (await_call E (pass_call c n mem (passResults st) i) (pass_begin n i st)) = Returned r"
  shows "passLoop E c n mem i st =
    passLoop E c n mem (i + 1)
      (pass_complete i r
         (fst (await_call E (pass_call c n mem (passResults st) i) (pass_begin n i st))))"
  using assms by (subst passLoop.simps) (simp add: Let_def)

lemma loop_inv_issued: "loop_inv E c n mem R i st \<Longrightarrow> length (issued st) = i"
  unfolding loop_inv_def by (elim conjE) (erule ssubst, simp)

lemma passLoop_post:
  "loop_inv E c n mem R i st \<Longrightarrow>
   loop_post E c n mem R (fst (passLoop E c n mem i st)) (snd (passLoop E c n mem i st))"
proof (induction E c n mem i st rule: passLoop.induct)
  case (1 E c n mem i st)
  show ?case
  proof (cases "i < n \<and> \<not> signal_aborted (ui st)")
    case False
    with loop_inv_exit [OF "1.prems"] passLoop_exit [OF False, of E c mem] show ?thesis
      by auto
  next
    case True
    note leni = loop_inv_issued [OF "1.prems"]
    define aw where
      "aw = await_call E (pass_call c n mem (passResults st) i) (pass_begin n i st)"
    have snd_aw: "snd aw = gr_result (gen E i)"
      by (simp add: aw_def leni)
    show ?thesis
    proof (cases "gr_result (gen E i)")
      case (Threw e)
      have "passLoop E c n mem i st = (fst aw, Some e)"
        unfolding aw_def
        by (rule passLoop_thrown) (use True snd_aw Threw in \<open>simp_all add: aw_def\<close>)
      with loop_inv_thrown [OF "1.prems" _ _ Threw] True show ?thesis
        by (simp add: aw_def)
    next
      case (Returned r)
      have eq: "passLoop E c n mem i st =
          passLoop E c n mem (i + 1) (pass_complete i r (fst aw))"
        unfolding aw_def
        by (rule passLoop_returned) (use True snd_aw Returned in \<open>simp_all add: aw_def\<close>)
      have "loop_inv E c n mem R (i + 1) (pass_complete i r (fst aw))"
        unfolding aw_def using loop_inv_step [OF "1.prems" _ _ Returned] True by simp
      moreover have "snd aw = Returned r"
        using snd_aw Returned by simp
      ultimately have "loop_post E c n mem R
          (fst (passLoop E c n mem (i + 1) (pass_complete i r (fst aw))))
          (snd (passLoop E c n mem (i + 1) (pass_complete i r (fst aw))))"
        using True unfolding aw_def by (intro "1.IH") simp_all
      then show ?thesis
        by (simp only: eq)
    qed
  qed
qed

lemma run_init_inv:
  "loop_inv E c n mem (results s) 0 (run_init s name)"
  unfolding loop_inv_def run_init_def announce_def Let_def
  by (auto simp: startResearch_enter_def signal_aborted_def error_events_def addThought_def)

lemma loop_post_zero:
  "loop_post E c 0 mem (results s) (run_init s name) None"
  using loop_inv_exit [OF run_init_inv [of E c 0 mem s name]] by simp

lemma loop_result_post:
  "loop_post E s (pass_bound (resolve_numPasses (depth s)))
     (buildMemorySection (activeContextIds s) (memoryContexts s)) (results s)
     (fst (loop_result E s name)) (snd (loop_result E s name))"
proof (cases "resolve_numPasses (depth s)")
  case (Own n)
  then show ?thesis
    using passLoop_post [OF run_init_inv, of E s n _ s name]
    by (simp add: loop_result_def run_passes_def pass_bound_def)
next
  case Undefined
  then show ?thesis
    using loop_post_zero [of E s _ s name]
    by (simp add: loop_result_def run_passes_def pass_bound_def)
next
  case Inherited
  then show ?thesis
    using loop_post_zero [of E s _ s name]
    by (simp add: loop_result_def run_passes_def pass_bound_def)
qed

lemma try_block_thrown:
  assumes "provider_name (provider s) = Some name" and "snd (loop_result E s name) = Some e"
  shows "try_block E s (resolve_numPasses (depth s))
           (buildMemorySection (activeContextIds s) (memoryContexts s))
           (0 < fcard (activeContextIds s))
           \<lparr>ui = startResearch_enter s, passResults = [], finalAnswer = [], issued = []\<rparr> =
         loop_result E s name"
  using assms
  unfolding try_block_def loop_result_def [symmetric] run_init_def [symmetric] Let_def
  by simp

lemma try_block_synthesis_thrown:
  assumes "provider_name (provider s) = Some name" and "snd (loop_result E s name) = None"
    and "snd (synthesis_result E s name) = Some e"
  shows "try_block E s (resolve_numPasses (depth s))
           (buildMemorySection (activeContextIds s) (memoryContexts s))
           (0 < fcard (activeContextIds s))
           \<lparr>ui = startResearch_enter s, passResults = [], finalAnswer = [], issued = []\<rparr> =
         synthesis_result E s name"
  using assms
  unfolding try_block_def loop_result_def [symmetric] run_init_def [symmetric] Let_def
    synthesis_result_def [symmetric]
  by simp

lemma try_block_published:
  assumes "provider_name (provider s) = Some name" and "snd (loop_result E s name) = None"
    and "snd (synthesis_result E s name) = None"
  shows "try_block E s (resolve_numPasses (depth s))
           (buildMemorySection (activeContextIds s) (memoryContexts s))
           (0 < fcard (activeContextIds s))
           \<lparr>ui = startResearch_enter s, passResults = [], finalAnswer = [], issued = []\<rparr> =
         (publish E s (0 < fcard (activeContextIds s)) (fst (synthesis_result E s name)), None)"
  using assms
  unfolding try_block_def loop_result_def [symmetric] run_init_def [symmetric] Let_def
    synthesis_result_def [symmetric]
  by simp

lemma synthesis_begin_fields [simp]:
  "passResults (synthesis_begin st) = passResults st"
  "finalAnswer (synthesis_begin st) = finalAnswer st"
  "issued (synthesis_begin st) = issued st"
  "results (ui (synthesis_begin st)) = results (ui st)"
  "abortRef (ui (synthesis_begin st)) = abortRef (ui st)"
  "signal_aborted (ui (synthesis_begin st)) = signal_aborted (ui st)"
  "error_events (ui (synthesis_begin st)) = error_events (ui st)"
  by (simp_all add: synthesis_begin_def Let_def)

lemma publish_fields [simp]:
  "passResults (publish E c hasMem st) = passResults st"
  "finalAnswer (publish E c hasMem st) = finalAnswer st"
  "issued (publish E c hasMem st) = issued st"
  "error_events (ui (publish E c hasMem st)) = error_events (ui st)"
  by (simp_all add: publish_def Let_def error_events_def addThought_def stopResearch_def)

lemma publish_aborted:
  "signal_aborted (ui st) \<Longrightarrow> publish E c hasMem st = st"
  by (simp add: publish_def)

lemma catch_block_fields [simp]:
  "results (catch_block thrown u) = results u"
  "error_events (catch_block None u) = error_events u"
  "error_events (catch_block (Some e) u) =
     error_events u @ (if err_name e \<noteq> lit ''AbortError'' then [error_event e] else [])"
  by (simp_all add: catch_block_def error_event_def split: option.split)

lemma startResearch_finally_fields [simp]:
  "results (startResearch_finally u) = results u"
  "error_events (startResearch_finally u) = error_events u"
  by (simp_all add: startResearch_finally_def error_events_def)

lemma startResearch_unfold:
  assumes "\<not> startResearch_guard s"
  shows "startResearch E s =
    (let tried = try_block E s (resolve_numPasses (depth s))
           (buildMemorySection (activeContextIds s) (memoryContexts s))
           (0 < fcard (activeContextIds s))
           \<lparr>ui = startResearch_enter s, passResults = [], finalAnswer = [], issued = []\<rparr>
     in \<lparr>final = (fst tried)
          \<lparr>ui := startResearch_finally (catch_block (snd tried) (ui (fst tried)))\<rparr>,
         caught = snd tried\<rparr>)"
  using assms by (simp add: startResearch_def Let_def)

lemma synthesis_step_taken:
  assumes "\<not> signal_aborted (ui st)" and "exceeds_one np" and "1 < length (passResults st)"
  shows "synthesis_step E c np mem st =
    (let awaited = await_call E (synthesis_call c mem (passResults st)) (synthesis_begin st)
     in (case snd awaited of
           Threw err \<Rightarrow> (fst awaited, Some err)
         | Returned text \<Rightarrow> ((fst awaited)\<lparr>finalAnswer := text\<rparr>, None)))"
  using assms by (simp add: synthesis_step_def)

lemma synthesis_step_skipped:
  assumes "\<not> (\<not> signal_aborted (ui st) \<and> exceeds_one np \<and> 1 < length (passResults st))"
  shows "synthesis_step E c np mem st = (st\<lparr>finalAnswer := last_or_empty (passResults st)\<rparr>, None)"
  unfolding synthesis_step_def using assms by (simp only: if_False)

lemma startResearch_cases:
  fixes E :: environment and s :: session
  defines "out \<equiv> startResearch E s"
    and "np \<equiv> resolve_numPasses (depth s)"
    and "mem \<equiv> buildMemorySection (activeContextIds s) (memoryContexts s)"
  defines "P \<equiv> passResults (final out)" and "n \<equiv> pass_bound np"
  assumes run: "\<not> startResearch_guard s" and prov: "provider_name (provider s) = Some name"
  obtains
    (pass_failed) e where
      "caught out = Some e"
      "issued (final out) = pass_calls s n mem P (Suc (length P))"
      "gr_result (gen E (length P)) = Threw e"
      "\<forall>j<length P. gr_result (gen E j) = Returned (P ! j)"
      "\<forall>j<length P. \<not> gr_stopped (gen E j)"
      "length P < n"
      "finalAnswer (final out) = []"
      "results (ui (final out)) = results s"
      "error_events (ui (final out)) =
         (if err_name e \<noteq> lit ''AbortError'' then [error_event e] else [])"
  | (synthesis_failed) e where
      "caught out = Some e"
      "issued (final out) = pass_calls s n mem P (length P) @ [synthesis_call s mem P]"
      "gr_result (gen E (length P)) = Threw e"
      "\<forall>j<length P. gr_result (gen E j) = Returned (P ! j)"
      "\<forall>j<length P. \<not> gr_stopped (gen E j)"
      "length P = n" "exceeds_one np" "1 < length P"
      "finalAnswer (final out) = []"
      "results (ui (final out)) = results s"
      "error_events (ui (final out)) =
         (if err_name e \<noteq> lit ''AbortError'' then [error_event e] else [])"
  | (synthesized) reply where
      "caught out = None"
      "issued (final out) = pass_calls s n mem P (length P) @ [synthesis_call s mem P]"
      "gr_result (gen E (length P)) = Returned reply"
      "\<forall>j<length P. gr_result (gen E j) = Returned (P ! j)"
      "\<forall>j<length P. \<not> gr_stopped (gen E j)"
      "length P = n" "exceeds_one np" "1 < length P"
      "finalAnswer (final out) = reply"
      "gr_stopped (gen E (length P)) \<longrightarrow> results (ui (final out)) = results s"
      "error_events (ui (final out)) = []"
  | (not_synthesized)
      "caught out = None"
      "issued (final out) = pass_calls s n mem P (length P)"
      "\<forall>j<length P. gr_result (gen E j) = Returned (P ! j)"
      "\<forall>j. Suc j < length P \<longrightarrow> \<not> gr_stopped (gen E j)"
      "length P \<le> n"
      "\<not> (\<not> (\<exists>j<length P. gr_stopped (gen E j)) \<and> exceeds_one np \<and> 1 < length P)"
      "finalAnswer (final out) = last_or_empty P"
      "(\<exists>j<length P. gr_stopped (gen E j)) \<longrightarrow> results (ui (final out)) = results s"
      "error_events (ui (final out)) = []"
proof -
  define L where "L = fst (loop_result E s name)"
  define thrown where "thrown = snd (loop_result E s name)"
  have post: "loop_post E s n mem (results s) L thrown"
    unfolding L_def thrown_def n_def np_def mem_def by (rule loop_result_post)
  then have lenP: "length (passResults L) \<le> n"
    and iss: "issued L = pass_calls s n mem (passResults L) (length (issued L))"
    and ret: "\<forall>j<length (passResults L). gr_result (gen E j) = Returned (passResults L ! j)"
    and abi: "signal_aborted (ui L) \<longleftrightarrow> (\<exists>j<length (issued L). gr_stopped (gen E j))"
    and lastonly: "\<forall>j. Suc j < length (issued L) \<longrightarrow> \<not> gr_stopped (gen E j)"
    and rest: "results (ui L) = results s" "error_events (ui L) = []" "finalAnswer L = []"
    unfolding loop_post_def pass_calls_def by simp_all
  note unfold = startResearch_unfold [OF run, of E, folded np_def mem_def]
  show ?thesis
  proof (cases thrown)
    case (Some e)
    from post Some have len: "length (issued L) = Suc (length (passResults L))"
      and lt: "length (passResults L) < n"
      and thr: "gr_result (gen E (length (passResults L))) = Threw e"
      unfolding loop_post_def by simp_all
    have tried: "try_block E s np mem (0 < fcard (activeContextIds s))
        \<lparr>ui = startResearch_enter s, passResults = [], finalAnswer = [], issued = []\<rparr> =
        (L, Some e)"
      unfolding np_def mem_def
      using try_block_thrown [OF prov, of E e] Some
      by (simp add: L_def thrown_def prod_eq_iff)
    have out_eq: "out = \<lparr>final = L\<lparr>ui := startResearch_finally (catch_block (Some e) (ui L))\<rparr>,
        caught = Some e\<rparr>"
      unfolding out_def unfold tried by (simp add: Let_def)
    have P_eq: "P = passResults L"
      unfolding P_def out_eq by simp
    have none: "\<forall>j<length P. \<not> gr_stopped (gen E j)"
      using lastonly len P_eq by simp
    show ?thesis
    proof (rule pass_failed [of e])
      show "caught out = Some e" by (simp add: out_eq)
      show "issued (final out) = pass_calls s n mem P (Suc (length P))"
        unfolding P_eq using iss len by (simp add: out_eq)
      show "gr_result (gen E (length P)) = Threw e" using thr P_eq by simp
      show "\<forall>j<length P. gr_result (gen E j) = Returned (P ! j)" using ret P_eq by simp
      show "\<forall>j<length P. \<not> gr_stopped (gen E j)" by (rule none)
      show "length P < n" using lt P_eq by simp
      show "finalAnswer (final out) = []" using rest by (simp add: out_eq)
      show "results (ui (final out)) = results s" using rest by (simp add: out_eq)
      show "error_events (ui (final out)) =
         (if err_name e \<noteq> lit ''AbortError'' then [error_event e] else [])"
        using rest by (simp add: out_eq)
    qed
  next
    case None
    from post None have len: "length (issued L) = length (passResults L)"
      and fin: "length (passResults L) = n \<or> signal_aborted (ui L)"
      unfolding loop_post_def by auto
    have abi': "signal_aborted (ui L) \<longleftrightarrow> (\<exists>j<length (passResults L). gr_stopped (gen E j))"
      using abi len by simp
    have loop_none: "snd (loop_result E s name) = None"
      using None by (simp add: thrown_def)
    show ?thesis
    proof (cases "\<not> signal_aborted (ui L) \<and> exceeds_one np \<and> 1 < length (passResults L)")
      case False
      have syn: "synthesis_result E s name =
          (L\<lparr>finalAnswer := last_or_empty (passResults L)\<rparr>, None)"
        unfolding synthesis_result_def L_def [symmetric] np_def [symmetric]
        by (rule synthesis_step_skipped) (use False in simp)
      have tried: "try_block E s np mem (0 < fcard (activeContextIds s))
          \<lparr>ui = startResearch_enter s, passResults = [], finalAnswer = [], issued = []\<rparr> =
          (publish E s (0 < fcard (activeContextIds s))
             (L\<lparr>finalAnswer := last_or_empty (passResults L)\<rparr>), None)"
        unfolding np_def mem_def
        using try_block_published [OF prov loop_none, of ] syn by simp
      define L' where "L' = publish E s (0 < fcard (activeContextIds s))
             (L\<lparr>finalAnswer := last_or_empty (passResults L)\<rparr>)"
      have out_eq: "out = \<lparr>final = L'\<lparr>ui := startResearch_finally (catch_block None (ui L'))\<rparr>,
          caught = None\<rparr>"
        unfolding out_def unfold tried L'_def by (simp add: Let_def)
      have P_eq: "P = passResults L"
        unfolding P_def out_eq by (simp add: L'_def)
      have res: "(\<exists>j<length P. gr_stopped (gen E j)) \<longrightarrow> results (ui (final out)) = results s"
      proof
        assume "\<exists>j<length P. gr_stopped (gen E j)"
        then have "signal_aborted (ui L)"
          using abi' P_eq by simp
        then have "L' = L\<lparr>finalAnswer := last_or_empty (passResults L)\<rparr>"
          unfolding L'_def by (intro publish_aborted) simp
        then show "results (ui (final out)) = results s"
          using rest by (simp add: out_eq)
      qed
      show ?thesis
      proof (rule not_synthesized)
        show "caught out = None" by (simp add: out_eq)
        show "issued (final out) = pass_calls s n mem P (length P)"
          unfolding P_eq using iss len by (simp add: out_eq L'_def)
        show "\<forall>j<length P. gr_result (gen E j) = Returned (P ! j)" using ret P_eq by simp
        show "\<forall>j. Suc j < length P \<longrightarrow> \<not> gr_stopped (gen E j)"
          using lastonly len P_eq by simp
        show "length P \<le> n" using lenP P_eq by simp
        show "\<not> (\<not> (\<exists>j<length P. gr_stopped (gen E j)) \<and> exceeds_one np \<and> 1 < length P)"
          using False abi' P_eq by simp
        show "finalAnswer (final out) = last_or_empty P"
          unfolding P_eq by (simp add: out_eq L'_def)
        show "(\<exists>j<length P. gr_stopped (gen E j)) \<longrightarrow> results (ui (final out)) = results s"
          by (rule res)
        show "error_events (ui (final out)) = []"
          using rest by (simp add: out_eq L'_def)
      qed
    next
      case True
      then have notab: "\<not> signal_aborted (ui L)" and ex1: "exceeds_one np"
        and many: "1 < length (passResults L)"
        by simp_all
      have full: "length (passResults L) = n"
        using fin notab by simp
      have none: "\<forall>j<length (passResults L). \<not> gr_stopped (gen E j)"
        using abi' notab by simp
      define aw where
        "aw = await_call E (synthesis_call s mem (passResults L)) (synthesis_begin L)"
      have snd_aw: "snd aw = gr_result (gen E (length (passResults L)))"
        by (simp add: aw_def len)
      have aw_fields: "passResults (fst aw) = passResults L"
        "issued (fst aw) = pass_calls s n mem (passResults L) (length (passResults L)) @
           [synthesis_call s mem (passResults L)]"
        "finalAnswer (fst aw) = []" "results (ui (fst aw)) = results s"
        "error_events (ui (fst aw)) = []"
        using rest iss len by (simp_all add: aw_def)
      have aw_aborted: "signal_aborted (ui (fst aw))"
        if "gr_stopped (gen E (length (passResults L)))"
        using that post unfolding loop_post_def by (auto simp: aw_def len)
      have syn: "synthesis_result E s name =
          (case snd aw of
             Threw err \<Rightarrow> (fst aw, Some err)
           | Returned text \<Rightarrow> ((fst aw)\<lparr>finalAnswer := text\<rparr>, None))"
        unfolding synthesis_result_def L_def [symmetric] np_def [symmetric]
          mem_def [symmetric] aw_def
        using synthesis_step_taken [OF notab ex1 many, of E s mem] by (simp add: Let_def)
      show ?thesis
      proof (cases "gr_result (gen E (length (passResults L)))")
        case (Threw e)
        have syn': "synthesis_result E s name = (fst aw, Some e)"
          using syn snd_aw Threw by simp
        have tried: "try_block E s np mem (0 < fcard (activeContextIds s))
            \<lparr>ui = startResearch_enter s, passResults = [], finalAnswer = [], issued = []\<rparr> =
            (fst aw, Some e)"
          unfolding np_def mem_def
          using try_block_synthesis_thrown [OF prov loop_none, of e] syn' by simp
        have out_eq: "out =
            \<lparr>final = (fst aw)\<lparr>ui := startResearch_finally (catch_block (Some e) (ui (fst aw)))\<rparr>,
             caught = Some e\<rparr>"
          unfolding out_def unfold tried by (simp add: Let_def)
        have P_eq: "P = passResults L"
          unfolding P_def out_eq by (simp add: aw_fields)
        show ?thesis
        proof (rule synthesis_failed [of e])
          show "caught out = Some e" by (simp add: out_eq)
          show "issued (final out) = pass_calls s n mem P (length P) @ [synthesis_call s mem P]"
            unfolding P_eq by (simp add: out_eq aw_fields)
          show "gr_result (gen E (length P)) = Threw e" using Threw P_eq by simp
          show "\<forall>j<length P. gr_result (gen E j) = Returned (P ! j)" using ret P_eq by simp
          show "\<forall>j<length P. \<not> gr_stopped (gen E j)" using none P_eq by simp
          show "length P = n" using full P_eq by simp
          show "exceeds_one np" by (rule ex1)
          show "1 < length P" using many P_eq by simp
          show "finalAnswer (final out) = []" by (simp add: out_eq aw_fields)
          show "results (ui (final out)) = results s" by (simp add: out_eq aw_fields)
          show "error_events (ui (final out)) =
              (if err_name e \<noteq> lit ''AbortError'' then [error_event e] else [])"
            by (simp add: out_eq aw_fields)
        qed
      next
        case (Returned reply)
        have syn': "synthesis_result E s name = ((fst aw)\<lparr>finalAnswer := reply\<rparr>, None)"
          using syn snd_aw Returned by simp
        define L' where "L' = publish E s (0 < fcard (activeContextIds s))
            ((fst aw)\<lparr>finalAnswer := reply\<rparr>)"
        have tried: "try_block E s np mem (0 < fcard (activeContextIds s))
            \<lparr>ui = startResearch_enter s, passResults = [], finalAnswer = [], issued = []\<rparr> =
            (L', None)"
          unfolding np_def mem_def L'_def
          using try_block_published [OF prov loop_none] syn' by simp
        have out_eq: "out =
            \<lparr>final = L'\<lparr>ui := startResearch_finally (catch_block None (ui L'))\<rparr>,
             caught = None\<rparr>"
          unfolding out_def unfold tried by (simp add: Let_def)
        have P_eq: "P = passResults L"
          unfolding P_def out_eq by (simp add: L'_def aw_fields)
        have res: "gr_stopped (gen E (length P)) \<longrightarrow> results (ui (final out)) = results s"
        proof
          assume "gr_stopped (gen E (length P))"
          then have "signal_aborted (ui (fst aw))"
            using aw_aborted P_eq by simp
          then have "L' = (fst aw)\<lparr>finalAnswer := reply\<rparr>"
            unfolding L'_def by (intro publish_aborted) simp
          then show "results (ui (final out)) = results s"
            by (simp add: out_eq aw_fields)
        qed
        show ?thesis
        proof (rule synthesized [of reply])
          show "caught out = None" by (simp add: out_eq)
          show "issued (final out) = pass_calls s n mem P (length P) @ [synthesis_call s mem P]"
            unfolding P_eq by (simp add: out_eq L'_def aw_fields)
          show "gr_result (gen E (length P)) = Returned reply" using Returned P_eq by simp
          show "\<forall>j<length P. gr_result (gen E j) = Returned (P ! j)" using ret P_eq by simp
          show "\<forall>j<length P. \<not> gr_stopped (gen E j)" using none P_eq by simp
          show "length P = n" using full P_eq by simp
          show "exceeds_one np" by (rule ex1)
          show "1 < length P" using many P_eq by simp
          show "finalAnswer (final out) = reply" by (simp add: out_eq L'_def)
          show "gr_stopped (gen E (length P)) \<longrightarrow> results (ui (final out)) = results s"
            by (rule res)
          show "error_events (ui (final out)) = []"
            by (simp add: out_eq L'_def aw_fields)
        qed
      qed
    qed
  qed
qed

lemma contains_in_order_append_right:
  "contains_in_order xs s \<Longrightarrow> contains_in_order xs (s @ b)"
proof (induction xs arbitrary: s)
  case Nil
  then show ?case by simp
next
  case (Cons x xs)
  then obtain before after where s: "s = before @ x @ after" and rest: "contains_in_order xs after"
    by auto
  have "s @ b = before @ x @ (after @ b)"
    by (simp add: s)
  moreover have "contains_in_order xs (after @ b)"
    using Cons.IH rest by blast
  ultimately show ?case
    unfolding contains_in_order.simps by blast
qed

lemma contains_in_order_append_left:
  "contains_in_order xs s \<Longrightarrow> contains_in_order xs (a @ s)"
proof (cases xs)
  case Nil
  then show ?thesis by simp
next
  case (Cons x xs')
  assume "contains_in_order xs s"
  then obtain before after where s: "s = before @ x @ after" and rest: "contains_in_order xs' after"
    using Cons by auto
  have "a @ s = (a @ before) @ x @ after"
    by (simp add: s)
  then show ?thesis
    unfolding Cons contains_in_order.simps using rest by blast
qed

lemma contains_in_order_join:
  "list_all2 (\<lambda>x y. \<exists>a b. y = a @ x @ b) xs ys \<Longrightarrow> contains_in_order xs (join_js ys sep)"
proof (induction ys sep arbitrary: xs rule: join_js.induct)
  case (1 sep)
  then show ?case by simp
next
  case (2 y sep)
  then obtain x a b where "xs = [x]" "y = a @ x @ b"
    by (auto simp: list_all2_Cons2)
  then show ?case
    by auto
next
  case (3 y y' ys sep)
  from "3.prems" obtain x xs' where xs: "xs = x # xs'" and "\<exists>a b. y = a @ x @ b"
    and rest: "list_all2 (\<lambda>x y. \<exists>a b. y = a @ x @ b) xs' (y' # ys)"
    unfolding list_all2_Cons2 [of _ xs y] by blast
  then obtain a b where y: "y = a @ x @ b"
    by blast
  have "contains_in_order xs' (join_js (y' # ys) sep)"
    using "3.IH" rest by blast
  then have "contains_in_order xs' (b @ sep @ join_js (y' # ys) sep)"
    using contains_in_order_append_left [of xs' _ "b @ sep"] by simp
  moreover have "join_js (y # y' # ys) sep = a @ x @ (b @ sep @ join_js (y' # ys) sep)"
    by (simp add: y)
  ultimately show ?case
    unfolding xs contains_in_order.simps by blast
qed

lemma map_indexed_all2:
  assumes "\<And>x i. R (g x) (f x i)"
  shows "list_all2 R (map g xs) (map_indexed f xs)"
  unfolding map_indexed_def list_all2_conv_all_nth
  using assms by (auto simp: nth_enumerate_eq)

lemma pass_entries_contain_excerpts:
  "list_all2 (\<lambda>x y. \<exists>a b. y = a @ x @ b) (map (excerpt 500) rs) (map_indexed pass_entry rs)"
proof (rule map_indexed_all2)
  fix r i
  have "pass_entry r i = (lit ''[Pass '' @ show_nat (i + 1) @ lit '']: '') @ excerpt 500 r @ []"
    by (simp add: pass_entry_def excerpt_def substring0_def)
  then show "\<exists>a b. pass_entry r i = a @ excerpt 500 r @ b"
    by blast
qed

lemma pass_user_prompt_contains:
  "contains_in_order (map (excerpt 500) rs) (pass_user_prompt q mem rs label)"
proof (cases rs)
  case Nil
  then show ?thesis by simp
next
  case (Cons r rs')
  have "contains_in_order (map (excerpt 500) rs) (join_js (map_indexed pass_entry rs) (nl @ nl))"
    by (rule contains_in_order_join) (rule pass_entries_contain_excerpts)
  then have "contains_in_order (map (excerpt 500) rs)
      ((lit ''RESEARCH QUERY: '' @ q @ mem @ nl @ nl @ lit ''PREVIOUS PASSES:'' @ nl) @
       join_js (map_indexed pass_entry rs) (nl @ nl) @
       (nl @ nl @ lit ''Execute '' @ label @ lit ''. Be thorough and precise.''))"
    by (intro contains_in_order_append_left contains_in_order_append_right)
  then show ?thesis
    using Cons by (simp add: pass_user_prompt_def previous_context_def)
qed

lemma pass_user_prompt_first:
  "pass_user_prompt q mem [] label =
     lit ''RESEARCH QUERY: '' @ q @ mem @ nl @ nl @ lit ''Execute '' @ label @
     lit ''. Be thorough and precise.''"
  by (simp add: pass_user_prompt_def previous_context_def)

lemma pass_calls_length [simp]: "length (pass_calls c n mem P k) = k"
  by (simp add: pass_calls_def)

lemma pass_calls_nth: "i < k \<Longrightarrow> pass_calls c n mem P k ! i = pass_call c n mem (take i P) i"
  by (simp add: pass_calls_def)

lemma pass_calls_purposes: "map gc_purpose (pass_calls c n mem P k) = map PassCall [0..<k]"
  by (simp add: pass_calls_def pass_call_def Let_def)


lemma pass_call_fields [simp]:
  "gc_purpose (pass_call c n mem prior i) = PassCall i"
  "gc_user (pass_call c n mem prior i) = pass_user_prompt (query c) mem prior (pass_label i)"
  by (simp_all add: pass_call_def Let_def)

lemma synthesis_call_purpose [simp]: "gc_purpose (synthesis_call c mem prior) = SynthesisCall"
  by (simp add: synthesis_call_def Let_def)

lemma startResearch_refused:
  assumes "startResearch_guard s"
  shows "startResearch E s =
    \<lparr>final = \<lparr>ui = s, passResults = [], finalAnswer = [], issued = []\<rparr>, caught = None\<rparr>"
  using assms by (simp add: startResearch_def)

lemma startResearch_unknown_provider:
  assumes "\<not> startResearch_guard s" and "provider_name (provider s) = None"
  shows "issued (final (startResearch E s)) = []"
    and "passResults (final (startResearch E s)) = []"
    and "finalAnswer (final (startResearch E s)) = []"
    and "results (ui (final (startResearch E s))) = results s"
  using assms
  by (simp_all add: startResearch_unfold try_block_def Let_def startResearch_enter_def)

lemma idle_run:
  assumes "startResearch_guard s \<or> provider_name (provider s) = None"
  shows "issued (final (startResearch E s)) = []"
    and "passResults (final (startResearch E s)) = []"
    and "finalAnswer (final (startResearch E s)) = []"
    and "results (ui (final (startResearch E s))) = results s"
proof -
  show "issued (final (startResearch E s)) = []"
    using assms startResearch_unknown_provider(1) [of s E]
    by (cases "startResearch_guard s") (simp_all add: startResearch_refused)
  show "passResults (final (startResearch E s)) = []"
    using assms startResearch_unknown_provider(2) [of s E]
    by (cases "startResearch_guard s") (simp_all add: startResearch_refused)
  show "finalAnswer (final (startResearch E s)) = []"
    using assms startResearch_unknown_provider(3) [of s E]
    by (cases "startResearch_guard s") (simp_all add: startResearch_refused)
  show "results (ui (final (startResearch E s))) = results s"
    using assms startResearch_unknown_provider(4) [of s E]
    by (cases "startResearch_guard s") (simp_all add: startResearch_refused)
qed

lemmas run_eval =
  startResearch_def startResearch_guard_def startResearch_enter_def startResearch_finally_def
  try_block_def run_passes_def announce_def catch_block_def publish_def synthesis_step_def
  synthesis_begin_def await_call_def pass_begin_def pass_complete_def
  passLoop.simps resolve_numPasses_def get_property_def DEPTH_PASSES_def truthy_def
  exceeds_one_def provider_name_def PROVIDERS_def Object_prototype_keys_def
  buildMemorySection_def trim_js_def is_js_whitespace_def signal_aborted_def stopResearch_def
  addThought_def last_or_empty_def error_events_def error_event_def Let_def
  pass_label_def PASS_LABELS_def
  example_session_def example_environment_def returns_def api_error_def lit_def

section \<open>Failure of a pass\<close>

text \<open>
  C3. If the generation call of pass \<open>k\<close> is made and fails with an error that is not the
  cancellation error, the run ends there: no research result is added, exactly one ERROR
  event is logged and it carries the error's message, the calls made are those of passes
  0 to \<open>k\<close>, each once and in order (no retry, no later pass, no synthesis), the completed
  passes are the \<open>k\<close> before it, and the error caught is that error. This holds for every
  \<open>k\<close>, in particular for \<open>k < N - 1\<close>.
\<close>

theorem pass_failure_ends_run:
  assumes "k < length (issued (final (startResearch E s)))"
    and "gc_purpose (issued (final (startResearch E s)) ! k) = PassCall k"
    and "gr_result (gen E k) = Threw e"
    and "err_name e \<noteq> lit ''AbortError''"
  shows "results (ui (final (startResearch E s))) = results s \<and>
         error_events (ui (final (startResearch E s))) = [error_event e] \<and>
         map gc_purpose (issued (final (startResearch E s))) = map PassCall [0..<Suc k] \<and>
         length (passResults (final (startResearch E s))) = k \<and>
         caught (startResearch E s) = Some e"
proof (cases "startResearch_guard s \<or> provider_name (provider s) = None")
  case True
  then show ?thesis
    using assms(1) idle_run(1) [of s E] by simp
next
  case False
  then obtain name where run: "\<not> startResearch_guard s"
    and prov: "provider_name (provider s) = Some name"
    by auto
  define P where "P = passResults (final (startResearch E s))"
  from run prov show ?thesis
  proof (cases rule: startResearch_cases [where E = E])
    case (pass_failed e')
    have "k = length P"
    proof (rule ccontr)
      assume "k \<noteq> length P"
      then have "k < length P"
        using assms(1) pass_failed(2) by (simp add: P_def)
      then show False
        using pass_failed(4) assms(3) by (simp add: P_def)
    qed
    then have "e' = e"
      using pass_failed(3) assms(3) by (simp add: P_def)
    then show ?thesis
      using pass_failed \<open>k = length P\<close> assms(4)
      by (simp add: P_def pass_calls_purposes)
  next
    case (synthesis_failed e')
    have "k = length P"
    proof (rule ccontr)
      assume "k \<noteq> length P"
      then have "k < length P"
        using assms(1) synthesis_failed(2) by (simp add: P_def)
      then show False
        using synthesis_failed(4) assms(3) by (simp add: P_def)
    qed
    then show ?thesis
      using assms(2) synthesis_failed(2) by (simp add: P_def nth_append)
  next
    case (synthesized reply)
    have "k = length P"
    proof (rule ccontr)
      assume "k \<noteq> length P"
      then have "k < length P"
        using assms(1) synthesized(2) by (simp add: P_def)
      then show False
        using synthesized(4) assms(3) by (simp add: P_def)
    qed
    then show ?thesis
      using assms(2) synthesized(2) by (simp add: P_def nth_append)
  next
    case not_synthesized
    have "k < length P"
      using assms(1) not_synthesized(2) by (simp add: P_def)
    then show ?thesis
      using not_synthesized(3) assms(3) by (simp add: P_def)
  qed
qed

theorem pass_failure_ends_run_witness:
  "1 < length (issued (final (startResearch second_pass_fails example_session))) \<and>
   gc_purpose (issued (final (startResearch second_pass_fails example_session)) ! 1) = PassCall 1 \<and>
   gr_result (gen second_pass_fails 1) = Threw api_error \<and>
   err_name api_error \<noteq> lit ''AbortError'' \<and>
   resolve_numPasses (depth example_session) = Own 3 \<and>
   results (ui (final (startResearch second_pass_fails example_session))) = [] \<and>
   error_events (ui (final (startResearch second_pass_fails example_session))) =
     [error_event api_error] \<and>
   map gc_purpose (issued (final (startResearch second_pass_fails example_session))) =
     [PassCall 0, PassCall 1]"
proof -
  have h1: "1 < length (issued (final (startResearch second_pass_fails example_session)))"
    by (simp add: run_eval second_pass_fails_def)
  have h2: "gc_purpose (issued (final (startResearch second_pass_fails example_session)) ! 1) =
      PassCall 1"
    by (simp add: run_eval second_pass_fails_def pass_call_def)
  have h3: "gr_result (gen second_pass_fails 1) = Threw api_error"
    by (simp add: second_pass_fails_def example_environment_def)
  have h4: "err_name api_error \<noteq> lit ''AbortError''"
    by (simp add: api_error_def lit_def)
  have h5: "resolve_numPasses (depth example_session) = Own 3"
    by (simp add: run_eval)
  have h6: "results example_session = []"
    by (simp add: example_session_def)
  show ?thesis
    using pass_failure_ends_run [OF h1 h2 h3 h4] h1 h2 h3 h4 h5 h6
    by (simp add: upt_rec)
qed

section \<open>Cancellation\<close>

lemma stopped_call_ends_run:
  assumes "\<exists>j<length (issued (final (startResearch E s))). gr_stopped (gen E j)"
  shows "results (ui (final (startResearch E s))) = results s \<and>
         ((\<forall>j<length (issued (final (startResearch E s))).
             gr_stopped (gen E j) \<longrightarrow>
             (\<forall>e. gr_result (gen E j) = Threw e \<longrightarrow> err_name e = lit ''AbortError'')) \<longrightarrow>
          error_events (ui (final (startResearch E s))) = [])"
proof (cases "startResearch_guard s \<or> provider_name (provider s) = None")
  case True
  then show ?thesis
    using assms idle_run(1) [of s E] by simp
next
  case False
  then obtain name where run: "\<not> startResearch_guard s"
    and prov: "provider_name (provider s) = Some name"
    by auto
  define P where "P = passResults (final (startResearch E s))"
  from assms obtain j where j: "j < length (issued (final (startResearch E s)))"
    and stopped: "gr_stopped (gen E j)"
    by blast
  from run prov show ?thesis
  proof (cases rule: startResearch_cases [where E = E])
    case (pass_failed e)
    have len: "length (issued (final (startResearch E s))) = Suc (length P)"
      using pass_failed(2) by (simp add: P_def)
    have "j = length P"
      using j stopped pass_failed(5) len by (auto simp: P_def less_Suc_eq)
    then have "gr_stopped (gen E (length P))" "length P < length (issued (final (startResearch E s)))"
      using stopped len by simp_all
    then show ?thesis
      using pass_failed(3,8,9) by (auto simp: P_def)
  next
    case (synthesis_failed e)
    have len: "length (issued (final (startResearch E s))) = Suc (length P)"
      using synthesis_failed(2) by (simp add: P_def)
    have "j = length P"
      using j stopped synthesis_failed(5) len by (auto simp: P_def less_Suc_eq)
    then have "gr_stopped (gen E (length P))" "length P < length (issued (final (startResearch E s)))"
      using stopped len by simp_all
    then show ?thesis
      using synthesis_failed(3,10,11) by (auto simp: P_def)
  next
    case (synthesized reply)
    have len: "length (issued (final (startResearch E s))) = Suc (length P)"
      using synthesized(2) by (simp add: P_def)
    have "j = length P"
      using j stopped synthesized(5) len by (auto simp: P_def less_Suc_eq)
    then have "gr_stopped (gen E (length P))"
      using stopped by simp
    then show ?thesis
      using synthesized(10,11) by (simp add: P_def)
  next
    case not_synthesized
    have "j < length P"
      using j not_synthesized(2) by (simp add: P_def)
    then have "\<exists>j<length P. gr_stopped (gen E j)"
      using stopped by blast
    then show ?thesis
      using not_synthesized(8,9) by (simp add: P_def)
  qed
qed

text \<open>
  C2, as stated, fails when Stop is pressed while the result is being persisted. The run
  is still going then (\<^verbatim>\<open>isResearching\<close> is true and the Stop button is shown), and the
  signal is aborted; yet the research result has been recorded and stays. Every
  generation call of this run had returned before, none was pending at the Stop.
\<close>

theorem stopped_while_persisting_keeps_result:
  "stopped_while_persisting stopped_after_result \<and>
   honours_signal (gen stopped_after_result 0) \<and>
   length (issued (final (startResearch stopped_after_result quick_session))) = 1 \<and>
   signal_aborted (ui (final (startResearch stopped_after_result quick_session))) \<and>
   results quick_session = [] \<and>
   map rr_answer (results (ui (final (startResearch stopped_after_result quick_session)))) =
     [lit ''ab'']"
proof -
  have "stopped_while_persisting stopped_after_result \<and>
      honours_signal (gen stopped_after_result 0) \<and>
      results quick_session = []"
    by (simp add: stopped_after_result_def all_return_def example_environment_def returns_def
        honours_signal_def quick_session_def example_session_def)
  moreover have "length (issued (final (startResearch stopped_after_result quick_session))) = 1 \<and>
      signal_aborted (ui (final (startResearch stopped_after_result quick_session))) \<and>
      map rr_answer (results (ui (final (startResearch stopped_after_result quick_session)))) =
        [lit ''ab'']"
    by (auto simp: run_eval stopped_after_result_def quick_session_def all_return_def)
  ultimately show ?thesis
    by simp
qed

text \<open>
  C2, amended. If Stop is pressed while a generation call of the run (a pass or the
  synthesis) is pending, in particular before any pass completes, the run ends with no
  research result added and no ERROR event logged. The pending call is aborted through
  its signal, so what the \<^verbatim>\<open>catch\<close> block sees is the cancellation error, which it does
  not report.
\<close>

theorem cancelled_run_gives_no_result:
  assumes "\<exists>j<length (issued (final (startResearch E s))). gr_stopped (gen E j)"
    and "\<forall>j<length (issued (final (startResearch E s))). honours_signal (gen E j)"
  shows "results (ui (final (startResearch E s))) = results s \<and>
         error_events (ui (final (startResearch E s))) = []"
proof -
  have "\<forall>j<length (issued (final (startResearch E s))).
      gr_stopped (gen E j) \<longrightarrow>
      (\<forall>e. gr_result (gen E j) = Threw e \<longrightarrow> err_name e = lit ''AbortError'')"
    using assms(2) by (auto simp: honours_signal_def)
  then show ?thesis
    using stopped_call_ends_run [OF assms(1)] by blast
qed

theorem cancelled_run_gives_no_result_witness:
  "(\<exists>j<length (issued (final (startResearch stopped_in_first_pass example_session))).
      gr_stopped (gen stopped_in_first_pass j)) \<and>
   honours_signal (gen stopped_in_first_pass 0) \<and>
   length (issued (final (startResearch stopped_in_first_pass example_session))) = 1 \<and>
   passResults (final (startResearch stopped_in_first_pass example_session)) = [] \<and>
   results (ui (final (startResearch stopped_in_first_pass example_session))) = [] \<and>
   error_events (ui (final (startResearch stopped_in_first_pass example_session))) = []"
proof -
  have len: "length (issued (final (startResearch stopped_in_first_pass example_session))) = 1"
    by (simp add: run_eval stopped_in_first_pass_def)
  have stopped: "gr_stopped (gen stopped_in_first_pass 0)"
    by (simp add: stopped_in_first_pass_def example_environment_def)
  have h: "\<exists>j<length (issued (final (startResearch stopped_in_first_pass example_session))).
      gr_stopped (gen stopped_in_first_pass j)"
    using len stopped by simp
  have honoured: "honours_signal (gen stopped_in_first_pass j)" for j
    by (simp add: honours_signal_def stopped_in_first_pass_def example_environment_def)
  have none: "passResults (final (startResearch stopped_in_first_pass example_session)) = []"
    by (simp add: run_eval stopped_in_first_pass_def)
  have "results example_session = []"
    by (simp add: example_session_def)
  then show ?thesis
    using cancelled_run_gives_no_result [OF h] h honoured len none by simp
qed

section \<open>The synthesis decision\<close>




section \<open>The prompt of a pass\<close>

text \<open>
  C7. When the call of pass \<open>i\<close> is made, the outputs of the passes 0 to \<open>i - 1\<close> are what
  their calls returned, and the user prompt of pass \<open>i\<close> contains, one after the other in
  that order, the first 500 code units of each of them followed by the marker
  \<^verbatim>\<open>...\<close>. The user prompt of pass 0 is the query, the memory block and the closing
  directive, with nothing in between.
\<close>

theorem pass_prompt_carries_prior_outputs:
  assumes "i < length (issued (final (startResearch E s)))"
    and "gc_purpose (issued (final (startResearch E s)) ! i) = PassCall i"
  shows "i \<le> length (passResults (final (startResearch E s))) \<and>
         (\<forall>j<i. gr_result (gen E j) = Returned (passResults (final (startResearch E s)) ! j)) \<and>
         contains_in_order
           (map (excerpt 500) (take i (passResults (final (startResearch E s)))))
           (gc_user (issued (final (startResearch E s)) ! i)) \<and>
         (i = 0 \<longrightarrow>
            gc_user (issued (final (startResearch E s)) ! i) =
              lit ''RESEARCH QUERY: '' @ query s @
              buildMemorySection (activeContextIds s) (memoryContexts s) @
              nl @ nl @ lit ''Execute '' @ pass_label 0 @ lit ''. Be thorough and precise.'')"
proof (cases "startResearch_guard s \<or> provider_name (provider s) = None")
  case True
  then show ?thesis
    using assms(1) idle_run(1) [of s E] by simp
next
  case False
  then obtain name where run: "\<not> startResearch_guard s"
    and prov: "provider_name (provider s) = Some name"
    by auto
  define P where "P = passResults (final (startResearch E s))"
  define n where "n = pass_bound (resolve_numPasses (depth s))"
  define mem where "mem = buildMemorySection (activeContextIds s) (memoryContexts s)"
  have main: "i \<le> length P \<and> (\<forall>j<length P. gr_result (gen E j) = Returned (P ! j)) \<and>
      issued (final (startResearch E s)) ! i = pass_call s n mem (take i P) i"
    using run prov
  proof (cases rule: startResearch_cases [where E = E])
    case (pass_failed e)
    then show ?thesis
      using assms(1) by (simp add: P_def n_def mem_def pass_calls_nth)
  next
    case (synthesis_failed e)
    have "i < length P"
      using assms synthesis_failed(2) by (cases "i = length P") (simp_all add: P_def nth_append)
    then show ?thesis
      using synthesis_failed(2,4) by (simp add: P_def n_def mem_def pass_calls_nth nth_append)
  next
    case (synthesized reply)
    have "i < length P"
      using assms synthesized(2) by (cases "i = length P") (simp_all add: P_def nth_append)
    then show ?thesis
      using synthesized(2,4) by (simp add: P_def n_def mem_def pass_calls_nth nth_append)
  next
    case not_synthesized
    then show ?thesis
      using assms(1) by (simp add: P_def n_def mem_def pass_calls_nth)
  qed
  then have user: "gc_user (issued (final (startResearch E s)) ! i) =
      pass_user_prompt (query s) mem (take i P) (pass_label i)"
    by simp
  have "contains_in_order (map (excerpt 500) (take i P))
      (gc_user (issued (final (startResearch E s)) ! i))"
    unfolding user by (rule pass_user_prompt_contains)
  moreover have "i = 0 \<longrightarrow> gc_user (issued (final (startResearch E s)) ! i) =
      lit ''RESEARCH QUERY: '' @ query s @ mem @
      nl @ nl @ lit ''Execute '' @ pass_label 0 @ lit ''. Be thorough and precise.''"
    unfolding user by (simp add: pass_user_prompt_first)
  ultimately show ?thesis
    using main unfolding P_def mem_def by simp
qed

theorem pass_prompt_carries_prior_outputs_witness:
  "2 < length (issued (final (startResearch all_return example_session))) \<and>
   gc_purpose (issued (final (startResearch all_return example_session)) ! 2) = PassCall 2 \<and>
   take 2 (passResults (final (startResearch all_return example_session))) =
     [lit ''ab'', lit ''ab''] \<and>
   contains_in_order [excerpt 500 (lit ''ab''), excerpt 500 (lit ''ab'')]
     (gc_user (issued (final (startResearch all_return example_session)) ! 2))"
proof -
  have h1: "2 < length (issued (final (startResearch all_return example_session)))"
    by (simp add: run_eval all_return_def)
  have h2: "gc_purpose (issued (final (startResearch all_return example_session)) ! 2) = PassCall 2"
    by (simp add: run_eval all_return_def pass_call_def)
  have P: "take 2 (passResults (final (startResearch all_return example_session))) =
      [lit ''ab'', lit ''ab'']"
    by (simp add: run_eval all_return_def)
  show ?thesis
    using pass_prompt_carries_prior_outputs [OF h1 h2] h1 h2 P by simp
qed

section \<open>The memory block\<close>

lemma contains_in_order_append:
  "contains_in_order xs s \<Longrightarrow> contains_in_order ys t \<Longrightarrow> contains_in_order (xs @ ys) (s @ t)"
proof (induction xs arbitrary: s)
  case Nil
  then show ?case
    by (simp add: contains_in_order_append_left)
next
  case (Cons x xs)
  then obtain before after where s: "s = before @ x @ after" and rest: "contains_in_order xs after"
    by auto
  have "contains_in_order (xs @ ys) (after @ t)"
    using Cons.IH rest Cons.prems(2) by blast
  moreover have "s @ t = before @ x @ (after @ t)"
    by (simp add: s)
  ultimately show ?case
    unfolding append_Cons contains_in_order.simps by blast
qed

lemma contains_in_order_join_concat:
  "list_all2 contains_in_order xss ys \<Longrightarrow> contains_in_order (concat xss) (join_js ys sep)"
proof (induction ys sep arbitrary: xss rule: join_js.induct)
  case (1 sep)
  then show ?case by simp
next
  case (2 y sep)
  then obtain xs where "xss = [xs]" "contains_in_order xs y"
    by (auto simp: list_all2_Cons2)
  then show ?case
    by simp
next
  case (3 y y' ys sep)
  from "3.prems" obtain xs xss' where xss: "xss = xs # xss'" and first: "contains_in_order xs y"
    and rest: "list_all2 contains_in_order xss' (y' # ys)"
    unfolding list_all2_Cons2 [of _ xss y] by blast
  have "contains_in_order (concat xss') (join_js (y' # ys) sep)"
    using "3.IH" rest by blast
  then have "contains_in_order (concat xss') (sep @ join_js (y' # ys) sep)"
    by (rule contains_in_order_append_left)
  then have "contains_in_order (xs @ concat xss') (y @ sep @ join_js (y' # ys) sep)"
    using first by (rule contains_in_order_append [rotated])
  then show ?case
    by (simp add: xss)
qed

lemma memory_entry_contains:
  "contains_in_order
     [lit ''Previous Query: '' @ mc_query c @ nl,
      lit ''Previous Answer: '' @ excerpt 600 (mc_answer c)]
     (memory_entry c i)"
proof -
  have "memory_entry c i =
      (lit ''[Context '' @ show_nat (i + 1) @ lit '']'' @ nl) @
      (lit ''Previous Query: '' @ mc_query c @ nl) @
      (lit ''Previous Answer: '' @ excerpt 600 (mc_answer c))"
    by (simp add: memory_entry_def excerpt_def substring0_def)
  moreover have "contains_in_order [lit ''Previous Answer: '' @ excerpt 600 (mc_answer c)]
      (lit ''Previous Answer: '' @ excerpt 600 (mc_answer c))"
    unfolding contains_in_order.simps by (intro exI [of _ "[]"]) simp
  ultimately show ?thesis
    unfolding contains_in_order.simps(2) [of "lit ''Previous Query: '' @ mc_query c @ nl"]
    by blast
qed

lemma memory_entries_contain:
  "list_all2 contains_in_order
     (map (\<lambda>c. [lit ''Previous Query: '' @ mc_query c @ nl,
                 lit ''Previous Answer: '' @ excerpt 600 (mc_answer c)]) sel)
     (map_indexed memory_entry sel)"
  by (rule map_indexed_all2) (rule memory_entry_contains)

text \<open>
  C8. When no stored context is selected the memory block is the empty text. Otherwise
  the block is an opening banner, a body and a closing banner, and the body contains, for
  each selected context in the order of the stored list, its label and full query and
  then its label and the first 600 code units of its answer followed by the marker
  \<^verbatim>\<open>...\<close>.
\<close>

theorem memory_block_contents:
  "(filter (\<lambda>c. mc_id c |\<in>| ids) stored = [] \<longrightarrow> buildMemorySection ids stored = []) \<and>
   (filter (\<lambda>c. mc_id c |\<in>| ids) stored \<noteq> [] \<longrightarrow>
      (\<exists>body.
         buildMemorySection ids stored =
           (nl @ nl @ bars 3 @ lit '' PRIOR RESEARCH CONTEXTS '' @ bars 3 @ nl) @ body @
           (nl @ bars 3 @ lit '' END CONTEXTS '' @ bars 3 @ nl @ nl @
            lit ''Use the above prior research to inform your current analysis.'') \<and>
         contains_in_order
           (concat (map (\<lambda>c. [lit ''Previous Query: '' @ mc_query c @ nl,
                               lit ''Previous Answer: '' @ excerpt 600 (mc_answer c)])
                      (filter (\<lambda>c. mc_id c |\<in>| ids) stored)))
           body))"
proof (intro conjI impI)
  assume "filter (\<lambda>c. mc_id c |\<in>| ids) stored = []"
  then show "buildMemorySection ids stored = []"
    by (simp add: buildMemorySection_def Let_def)
next
  define sel where "sel = filter (\<lambda>c. mc_id c |\<in>| ids) stored"
  assume "filter (\<lambda>c. mc_id c |\<in>| ids) stored \<noteq> []"
  then have nonempty: "sel \<noteq> []"
    by (simp add: sel_def)
  then obtain c where "c \<in> set stored" "mc_id c |\<in>| ids"
    unfolding sel_def by (metis filter_False)
  then have "ids \<noteq> {||}"
    by auto
  then have "fcard ids \<noteq> 0"
    by (metis fcard_0_eq)
  then have "buildMemorySection ids stored =
      (nl @ nl @ bars 3 @ lit '' PRIOR RESEARCH CONTEXTS '' @ bars 3 @ nl) @
      join_js (map_indexed memory_entry sel) (nl @ nl) @
      (nl @ bars 3 @ lit '' END CONTEXTS '' @ bars 3 @ nl @ nl @
       lit ''Use the above prior research to inform your current analysis.'')"
    using nonempty by (simp add: buildMemorySection_def Let_def sel_def)
  moreover have "contains_in_order
      (concat (map (\<lambda>c. [lit ''Previous Query: '' @ mc_query c @ nl,
                          lit ''Previous Answer: '' @ excerpt 600 (mc_answer c)]) sel))
      (join_js (map_indexed memory_entry sel) (nl @ nl))"
    by (rule contains_in_order_join_concat) (rule memory_entries_contain)
  ultimately show "\<exists>body.
      buildMemorySection ids stored =
        (nl @ nl @ bars 3 @ lit '' PRIOR RESEARCH CONTEXTS '' @ bars 3 @ nl) @ body @
        (nl @ bars 3 @ lit '' END CONTEXTS '' @ bars 3 @ nl @ nl @
         lit ''Use the above prior research to inform your current analysis.'') \<and>
      contains_in_order
        (concat (map (\<lambda>c. [lit ''Previous Query: '' @ mc_query c @ nl,
                            lit ''Previous Answer: '' @ excerpt 600 (mc_answer c)])
                   (filter (\<lambda>c. mc_id c |\<in>| ids) stored)))
        body"
    unfolding sel_def by blast
qed

theorem memory_block_contents_witness:
  "buildMemorySection {|lit ''m9''|} [first_context, second_context] = [] \<and>
   (\<exists>body.
      buildMemorySection {|lit ''m2''|} [first_context, second_context] =
        (nl @ nl @ bars 3 @ lit '' PRIOR RESEARCH CONTEXTS '' @ bars 3 @ nl) @ body @
        (nl @ bars 3 @ lit '' END CONTEXTS '' @ bars 3 @ nl @ nl @
         lit ''Use the above prior research to inform your current analysis.'') \<and>
      contains_in_order
        [lit ''Previous Query: '' @ lit ''Why?'' @ nl,
         lit ''Previous Answer: '' @ excerpt 600 (lit ''Because.'')]
        body)"
proof -
  have none: "filter (\<lambda>c. mc_id c |\<in>| {|lit ''m9''|}) [first_context, second_context] = []"
    by (simp add: first_context_def second_context_def lit_def)
  have one: "filter (\<lambda>c. mc_id c |\<in>| {|lit ''m2''|}) [first_context, second_context] =
      [second_context]"
    by (simp add: first_context_def second_context_def lit_def)
  have fields: "mc_query second_context = lit ''Why?''" "mc_answer second_context = lit ''Because.''"
    by (simp_all add: second_context_def)
  show ?thesis
    using memory_block_contents [of "{|lit ''m9''|}" "[first_context, second_context]"]
      memory_block_contents [of "{|lit ''m2''|}" "[first_context, second_context]"]
    unfolding none one by (simp add: fields)
qed

section \<open>The pass count of a depth tier\<close>






section \<open>The guard of \<^verbatim>\<open>startResearch\<close>\<close>

lemma dropWhile_all: "dropWhile P xs = [] \<longleftrightarrow> (\<forall>x\<in>set xs. P x)"
  by (simp add: dropWhile_eq_Nil_conv)

lemma trim_js_empty_iff: "trim_js q = [] \<longleftrightarrow> (\<forall>c\<in>set q. is_js_whitespace c)"
proof
  assume "\<forall>c\<in>set q. is_js_whitespace c"
  then have "dropWhile is_js_whitespace q = []"
    by (simp only: dropWhile_all)
  then show "trim_js q = []"
    unfolding trim_js_def by (simp only: rev.simps dropWhile.simps)
next
  assume "trim_js q = []"
  then have all: "\<forall>c\<in>set (dropWhile is_js_whitespace q). is_js_whitespace c"
    by (simp add: trim_js_def dropWhile_all)
  have "dropWhile is_js_whitespace q = []"
  proof (rule ccontr)
    assume nonempty: "dropWhile is_js_whitespace q \<noteq> []"
    then have "\<not> is_js_whitespace (hd (dropWhile is_js_whitespace q))"
      by (rule hd_dropWhile)
    moreover have "hd (dropWhile is_js_whitespace q) \<in> set (dropWhile is_js_whitespace q)"
      using nonempty by simp
    ultimately show False
      using all by blast
  qed
  then show "\<forall>c\<in>set q. is_js_whitespace c"
    by (simp add: dropWhile_all)
qed

lemma ui_step_keeps_one_run:
  assumes "one_run_at_most st" and "ev \<noteq> StopPressed"
  shows "one_run_at_most (ui_step st ev)"
proof (cases st)
  case (Pair s k)
  with assms show ?thesis
    by (cases ev)
       (auto simp: one_run_at_most_def startResearch_guard_def startResearch_enter_def
          startResearch_finally_def)
qed

lemma foldl_keeps_one_run:
  "one_run_at_most st \<Longrightarrow> StopPressed \<notin> set evs \<Longrightarrow> one_run_at_most (foldl ui_step st evs)"
proof (induction evs arbitrary: st)
  case Nil
  then show ?case by simp
next
  case (Cons ev evs)
  then have "one_run_at_most (ui_step st ev)"
    by (intro ui_step_keeps_one_run) auto
  then show ?case
    using Cons by simp
qed

text \<open>
  Invoked while \<^verbatim>\<open>isResearching\<close> is true, or with a query that is empty or consists of
  white space only, \<^verbatim>\<open>startResearch\<close> returns at once: the page state is unchanged (no
  event is logged) and no generation call is issued. In a session that starts idle and in
  which Stop is never pressed, at most one run is therefore in flight at any time.
\<close>

lemma startResearch_guarded:
  "(isResearching s \<or> (\<forall>c\<in>set (query s). is_js_whitespace c) \<longrightarrow>
      startResearch E s =
        \<lparr>final = \<lparr>ui = s, passResults = [], finalAnswer = [], issued = []\<rparr>, caught = None\<rparr>) \<and>
   (StopPressed \<notin> set evs \<longrightarrow> snd (ui_run s evs) \<le> 1)"
proof (intro conjI impI)
  assume "isResearching s \<or> (\<forall>c\<in>set (query s). is_js_whitespace c)"
  then have "startResearch_guard s"
    by (auto simp: startResearch_guard_def trim_js_empty_iff)
  then show "startResearch E s =
      \<lparr>final = \<lparr>ui = s, passResults = [], finalAnswer = [], issued = []\<rparr>, caught = None\<rparr>"
    by (rule startResearch_refused)
next
  assume "StopPressed \<notin> set evs"
  moreover have "one_run_at_most (s, 0)"
    by (simp add: one_run_at_most_def)
  ultimately have "one_run_at_most (ui_run s evs)"
    unfolding ui_run_def by (intro foldl_keeps_one_run)
  then show "snd (ui_run s evs) \<le> 1"
    by (auto simp: one_run_at_most_def)
qed

text \<open>
  C10. The guard and the disabled Start button are there to keep one run in flight, but
  \<^verbatim>\<open>stopResearch\<close> clears \<^verbatim>\<open>isResearching\<close> at once, while the stopped run may not have
  reached its \<^verbatim>\<open>finally\<close> block: it is still awaiting, for instance, \<^verbatim>\<open>apiSaveHistory\<close>,
  which takes no abort signal. Start, then Stop, then Start again: the second Start is
  not refused and two runs are in flight. When the first run then settles, it clears
  \<^verbatim>\<open>isResearching\<close> and the query box although the second run is still in flight.
\<close>

theorem restart_after_stop_overlaps:
  "snd (ui_run example_session [StartPressed, StopPressed, StartPressed]) = 2 \<and>
   isResearching (fst (ui_run example_session [StartPressed, StopPressed, StartPressed])) \<and>
   snd (ui_run example_session [StartPressed, StopPressed, StartPressed, RunSettled True]) = 1 \<and>
   \<not> isResearching
       (fst (ui_run example_session [StartPressed, StopPressed, StartPressed, RunSettled True])) \<and>
   query (fst (ui_run example_session [StartPressed, StopPressed, StartPressed, RunSettled True]))
     = []"
  by (simp add: ui_run_def startResearch_guard_def startResearch_enter_def stopResearch_def
      startResearch_finally_def trim_js_def is_js_whitespace_def example_session_def lit_def)

end
